theory Spec2Isabelle
  imports Complex_Main "HOL-Library.Sublist" "HOL-Library.AList"
begin

chapter \<open>The content API of BlogVerse\<close>

text \<open>
  A shallow embedding of the server of BlogVerse, the Hono application in
  \<open>src/supabase/functions/server/index.tsx\<close>: its helpers as functions on strings, its handlers
  as functions that take the store and return the answer with the new store, and a part of the
  tag editor of the client. The properties of the specification are stated on these definitions
  and proved, or refuted at a concrete input.
\<close>

section \<open>Strings\<close>

text \<open>
  A JavaScript string is modelled as a \<^typ>\<open>string\<close>: a list of code units, each in the 8-bit
  range (ASCII and Latin-1). \<open>String.prototype.toLowerCase\<close>, \<open>trim\<close> and the regular
  expression classes \<open>\s\<close>, \<open>a-z\<close> and \<open>0-9\<close> are written out for these code units.
\<close>

definition code :: "char \<Rightarrow> nat" where
  "code c = of_char c"

definition is_space :: "char \<Rightarrow> bool" where
  "is_space c = (let n = code c in (9 \<le> n \<and> n \<le> 13) \<or> n = 32 \<or> n = 160)"

definition is_lower :: "char \<Rightarrow> bool" where
  "is_lower c = (let n = code c in 97 \<le> n \<and> n \<le> 122)"

definition is_digit :: "char \<Rightarrow> bool" where
  "is_digit c = (let n = code c in 48 \<le> n \<and> n \<le> 57)"

definition hyphen :: char where
  "hyphen = CHR ''-''"

definition lower_char :: "char \<Rightarrow> char" where
  "lower_char c =
     (let n = code c
      in if (65 \<le> n \<and> n \<le> 90) \<or> (192 \<le> n \<and> n \<le> 214) \<or> (216 \<le> n \<and> n \<le> 222)
         then char_of (n + 32) else c)"

definition toLowerCase :: "string \<Rightarrow> string" where
  "toLowerCase s = map lower_char s"

definition trim :: "string \<Rightarrow> string" where
  "trim s = rev (dropWhile is_space (rev (dropWhile is_space s)))"

text \<open>\<open>s.replace(/[^...]/g, '')\<close>: every code unit outside the class is deleted.\<close>

definition slug_char :: "char \<Rightarrow> bool" where
  "slug_char c = (is_lower c \<or> is_digit c \<or> is_space c \<or> c = hyphen)"

text \<open>
  \<open>s.replace(/P+/g, '-')\<close> for a character class \<open>P\<close>: every maximal run of code units of
  the class becomes one hyphen.
\<close>

function replace_runs :: "(char \<Rightarrow> bool) \<Rightarrow> string \<Rightarrow> string" where
  "replace_runs P [] = []"
| "replace_runs P (c # cs) =
     (if P c then hyphen # replace_runs P (dropWhile P cs) else c # replace_runs P cs)"
  by pat_completeness auto
termination
  by (relation "measure (\<lambda>(P, s). length s)") (auto simp: length_dropWhile_le less_Suc_eq_le)

definition generateSlug :: "string \<Rightarrow> string" where
  "generateSlug title =
     trim (replace_runs (\<lambda>c. c = hyphen)
       (replace_runs is_space
         (filter slug_char (toLowerCase title))))"

text \<open>
  \<open>s.split(/\s+/)\<close>: the pieces between the maximal whitespace runs. A string that starts
  (ends) with whitespace has an empty first (last) piece, and the empty string splits into one
  empty piece.
\<close>

function split_ws :: "string \<Rightarrow> string list" where
  "split_ws [] = ['''']"
| "split_ws (c # cs) =
     (if is_space c then [] # split_ws (dropWhile is_space cs)
      else (case split_ws cs of [] \<Rightarrow> [c # ''''] | w # ws \<Rightarrow> (c # w) # ws))"
  by pat_completeness auto
termination
  by (relation "measure length") (auto simp: length_dropWhile_le less_Suc_eq_le)

definition wordsPerMinute :: nat where
  "wordsPerMinute = 200"

definition calculateReadingTime :: "string \<Rightarrow> nat" where
  "calculateReadingTime content =
     (let words = length (split_ws (trim content))
      in nat \<lceil>real words / real wordsPerMinute\<rceil>)"

text \<open>
  The specification's word count: the number of maximal runs of non-whitespace code units.
  The flag tells whether the previous code unit belonged to a word.
\<close>

primrec count_runs :: "bool \<Rightarrow> string \<Rightarrow> nat" where
  "count_runs in_word [] = 0"
| "count_runs in_word (c # cs) =
     (if is_space c then count_runs False cs
      else (if in_word then 0 else 1) + count_runs True cs)"

definition word_count :: "string \<Rightarrow> nat" where
  "word_count content = count_runs False content"


section \<open>Data model\<close>

text \<open>
  A timestamp is the number of milliseconds that \<open>new Date(iso).getTime()\<close> reads back from the
  ISO string \<open>new Date().toISOString()\<close> stored in the record.
\<close>

type_synonym timestamp = int

text \<open>The object literal \<open>blog\<close> of \<open>POST /blogs\<close>.\<close>

record blog =
  b_id :: string
  b_title :: string
  b_content :: string
  b_slug :: string
  b_tags :: "string list"
  b_isDraft :: bool
  b_readingTime :: nat
  b_authorId :: string
  b_createdAt :: timestamp
  b_updatedAt :: timestamp
  b_views :: nat

text \<open>
  The object written under \<open>blog:published:<id>\<close>. Its \<open>tags\<close> is the request's \<open>tags\<close> as
  it came, so it is absent when the request had none.
\<close>

record index_entry =
  ix_id :: string
  ix_title :: string
  ix_tags :: "string list option"
  ix_slug :: string
  ix_authorId :: string
  ix_createdAt :: timestamp

record comment =
  cm_id :: string
  cm_blogId :: string
  cm_content :: string
  cm_authorId :: string
  cm_createdAt :: timestamp

text \<open>
  The profile object of \<open>POST /signup\<close>. \<open>socialLinks\<close> and \<open>preferences\<close> are JavaScript
  objects used as dictionaries, kept as association lists; \<open>updatedAt\<close> appears with the first
  profile update.
\<close>

record user =
  usr_id :: string
  usr_name :: string
  usr_email :: string
  usr_bio :: string
  usr_location :: string
  usr_phone :: string
  usr_website :: string
  usr_avatar :: string
  usr_socialLinks :: "(string \<times> string) list"
  usr_preferences :: "(string \<times> bool) list"
  usr_createdAt :: timestamp
  usr_updatedAt :: "timestamp option"

text \<open>The JSON values that the handlers write into the store.\<close>

datatype kv_value =
    Blog blog
  | Published index_entry
  | BlogIds "string list"
  | Comment comment
  | User user

text \<open>
  The outcomes of a handler other than success, named as in the specification's taxonomy:
  status 400, 401, 403, 404 and the 500 of the \<open>catch\<close> block around every handler.

  \<open>Unmodelled\<close> is not an answer of the program. The store is untyped, and a key may hold an
  object of another shape than the handler reads it as; JavaScript then carries on with the
  fields that happen to exist. Where the records above cannot express the object that would
  result, the model stops with \<open>Unmodelled\<close> and leaves the store as it is. Every theorem below
  is stated for stores on which this answer does not occur.
\<close>

datatype error =
    ValidationError
  | AuthError
  | ForbiddenError
  | NotFoundError
  | InternalError
  | Unmodelled

section \<open>Key-value store\<close>

text \<open>
  Modelled from the spec: the module \<open>kv_store.tsx\<close> that \<open>index.tsx\<close> imports as \<open>kv\<close> is not
  among the sources. The specification describes it as a mapping from string keys to JSON values
  with get, set, delete and prefix scan, without transactions. The model is an association list;
  a prefix scan returns the values in the order of the list, \<open>set\<close> replaces the value of a
  present key in place and appends an absent key.
\<close>

type_synonym store = "(string \<times> kv_value) list"

definition kv_get :: "store \<Rightarrow> string \<Rightarrow> kv_value option" where
  "kv_get s k = map_of s k"

definition kv_set :: "store \<Rightarrow> string \<Rightarrow> kv_value \<Rightarrow> store" where
  "kv_set s k v = AList.update k v s"

definition kv_del :: "store \<Rightarrow> string \<Rightarrow> store" where
  "kv_del s k = AList.delete k s"

definition kv_getByPrefix :: "store \<Rightarrow> string \<Rightarrow> kv_value list" where
  "kv_getByPrefix s p = map snd (filter (\<lambda>kv. prefix p (fst kv)) s)"

text \<open>The template strings that build the keys.\<close>

definition blog_key :: "string \<Rightarrow> string" where
  "blog_key blogId = ''blog:'' @ blogId"

definition published_prefix :: string where
  "published_prefix = ''blog:published:''"

definition published_key :: "string \<Rightarrow> string" where
  "published_key blogId = published_prefix @ blogId"

definition user_key :: "string \<Rightarrow> string" where
  "user_key userId = ''user:'' @ userId"

definition user_blogs_key :: "string \<Rightarrow> string" where
  "user_blogs_key userId = ''user:'' @ userId @ '':blogs''"

definition comment_prefix :: "string \<Rightarrow> string" where
  "comment_prefix blogId = ''comment:'' @ blogId @ '':''"

definition comment_key :: "string \<Rightarrow> string \<Rightarrow> string" where
  "comment_key blogId commentId = comment_prefix blogId @ commentId"

text \<open>
  Property access on a stored value: \<open>None\<close> is JavaScript's \<open>undefined\<close>, the result for an
  object without the field and for an array.
\<close>

fun id_field :: "kv_value \<Rightarrow> string option" where
  "id_field (Blog b) = Some (b_id b)"
| "id_field (Published e) = Some (ix_id e)"
| "id_field (Comment c) = Some (cm_id c)"
| "id_field (User u) = Some (usr_id u)"
| "id_field (BlogIds xs) = None"

fun authorId_field :: "kv_value \<Rightarrow> string option" where
  "authorId_field (Blog b) = Some (b_authorId b)"
| "authorId_field (Published e) = Some (ix_authorId e)"
| "authorId_field (Comment c) = Some (cm_authorId c)"
| "authorId_field (User u) = None"
| "authorId_field (BlogIds xs) = None"

fun slug_field :: "kv_value \<Rightarrow> string option" where
  "slug_field (Blog b) = Some (b_slug b)"
| "slug_field (Published e) = Some (ix_slug e)"
| "slug_field (Comment c) = None"
| "slug_field (User u) = None"
| "slug_field (BlogIds xs) = None"

fun name_field :: "kv_value \<Rightarrow> string option" where
  "name_field (User u) = Some (usr_name u)"
| "name_field (Blog b) = None"
| "name_field (Published e) = None"
| "name_field (Comment c) = None"
| "name_field (BlogIds xs) = None"

text \<open>The truthiness of \<open>value.isDraft\<close>.\<close>

fun isDraft_field :: "kv_value \<Rightarrow> bool" where
  "isDraft_field (Blog b) = b_isDraft b"
| "isDraft_field (Published e) = False"
| "isDraft_field (Comment c) = False"
| "isDraft_field (User u) = False"
| "isDraft_field (BlogIds xs) = False"

text \<open>A field inside a template string: \<open>undefined\<close> is spelled out.\<close>

definition template :: "string option \<Rightarrow> string" where
  "template x = (case x of None \<Rightarrow> ''undefined'' | Some v \<Rightarrow> v)"

text \<open>
  \<open>kv.get(`user:${id}:blogs`) || []\<close> as the array the handlers go on to use. An object of
  another shape has none of the array methods: the call raises a \<open>TypeError\<close>, for which the
  result is \<open>None\<close>.
\<close>

definition user_blogs :: "store \<Rightarrow> string \<Rightarrow> string list option" where
  "user_blogs s userId =
     (case kv_get s (user_blogs_key userId) of
        None \<Rightarrow> Some []
      | Some (BlogIds xs) \<Rightarrow> Some xs
      | Some _ \<Rightarrow> None)"

text \<open>
  The projection \<open>author ? {id: author.id, name: author.name} : null\<close> of the record under
  \<open>user:<authorId>\<close>.
\<close>

type_synonym author_info = "(string option \<times> string option) option"

definition author_of :: "store \<Rightarrow> string \<Rightarrow> author_info" where
  "author_of s authorId =
     (case kv_get s (user_key authorId) of
        None \<Rightarrow> None
      | Some author \<Rightarrow> Some (id_field author, name_field author))"

section \<open>Blog handlers\<close>

text \<open>
  The JSON body of \<open>POST /blogs\<close> and \<open>PUT /blogs/:id\<close>; an absent field is \<open>None\<close>.
\<close>

record blog_input =
  in_title :: "string option"
  in_content :: "string option"
  in_tags :: "string list option"
  in_isDraft :: "bool option"

text \<open>
  \<open>POST /blogs\<close>. The caller is the user that \<open>getAuthenticatedUser\<close> returns (\<open>None\<close> for
  \<open>null\<close>); \<open>blogId\<close> stands for the value of \<open>crypto.randomUUID()\<close> and \<open>now\<close> for the clock.
\<close>

definition createBlog ::
  "string option \<Rightarrow> blog_input \<Rightarrow> string \<Rightarrow> timestamp \<Rightarrow> store \<Rightarrow> (error + blog) \<times> store" where
  "createBlog caller inp blogId now s =
     (case caller of
        None \<Rightarrow> (Inl AuthError, s)
      | Some userId \<Rightarrow>
          (case (in_title inp, in_content inp) of
             (Some title, Some content) \<Rightarrow>
               if title = [] \<or> content = [] then (Inl ValidationError, s)
               else
                 let slug = generateSlug title;
                     readingTime = calculateReadingTime content;
                     blog = \<lparr>b_id = blogId, b_title = title, b_content = content, b_slug = slug,
                             b_tags = (case in_tags inp of None \<Rightarrow> [] | Some ts \<Rightarrow> ts),
                             b_isDraft = (in_isDraft inp = Some True),
                             b_readingTime = readingTime, b_authorId = userId,
                             b_createdAt = now, b_updatedAt = now, b_views = 0\<rparr>;
                     s1 = kv_set s (blog_key blogId) (Blog blog)
                 in (case user_blogs s1 userId of
                       None \<Rightarrow> (Inl InternalError, s1)
                     | Some userBlogs \<Rightarrow>
                         let s2 = kv_set s1 (user_blogs_key userId) (BlogIds (userBlogs @ [blogId]));
                             s3 = (if in_isDraft inp \<noteq> Some True
                                   then kv_set s2 (published_key blogId)
                                          (Published \<lparr>ix_id = blogId, ix_title = title,
                                             ix_tags = in_tags inp, ix_slug = slug,
                                             ix_authorId = userId, ix_createdAt = now\<rparr>)
                                   else s2)
                         in (Inr blog, s3))
           | _ \<Rightarrow> (Inl ValidationError, s)))"

text \<open>
  \<open>PUT /blogs/:id\<close>. An absent title or content raises a \<open>TypeError\<close> inside \<open>generateSlug\<close>
  or \<open>calculateReadingTime\<close>, before anything is written.

  The handler does not look at what it finds under \<open>blog:<id>\<close>. For an id \<open>published:<x>\<close>
  this key is the index key of \<open><x>\<close>, and for the author of the entry the program goes on
  with the entry in place of a record: it writes an object without a view counter under this
  key and an entry under \<open>blog:published:published:<x>\<close>. The record \<^typ>\<open>blog\<close> has no value
  for that object, and this is the branch that ends with \<open>Unmodelled\<close>. No statement below
  about \<open>updateBlog\<close> runs through it: there the key holds a blog record.
\<close>

definition updateBlog ::
  "string option \<Rightarrow> string \<Rightarrow> blog_input \<Rightarrow> timestamp \<Rightarrow> store \<Rightarrow> (error + blog) \<times> store" where
  "updateBlog caller blogId inp now s =
     (case caller of
        None \<Rightarrow> (Inl AuthError, s)
      | Some userId \<Rightarrow>
          (case kv_get s (blog_key blogId) of
             None \<Rightarrow> (Inl NotFoundError, s)
           | Some existing \<Rightarrow>
               if authorId_field existing \<noteq> Some userId then (Inl ForbiddenError, s)
               else
                 (case (in_title inp, in_content inp) of
                    (Some title, Some content) \<Rightarrow>
                      (case existing of
                         Blog existingBlog \<Rightarrow>
                           let slug = generateSlug title;
                               readingTime = calculateReadingTime content;
                               updatedBlog = existingBlog
                                 \<lparr>b_title := title, b_content := content, b_slug := slug,
                                  b_tags := (case in_tags inp of None \<Rightarrow> [] | Some ts \<Rightarrow> ts),
                                  b_isDraft := (case in_isDraft inp of
                                                  Some d \<Rightarrow> d | None \<Rightarrow> b_isDraft existingBlog),
                                  b_readingTime := readingTime, b_updatedAt := now\<rparr>;
                               s1 = kv_set s (blog_key blogId) (Blog updatedBlog);
                               s2 = (if \<not> b_isDraft updatedBlog
                                     then kv_set s1 (published_key blogId)
                                            (Published \<lparr>ix_id = blogId, ix_title = title,
                                               ix_tags = in_tags inp, ix_slug = slug,
                                               ix_authorId = userId,
                                               ix_createdAt = b_createdAt existingBlog\<rparr>)
                                     else kv_del s1 (published_key blogId))
                           in (Inr updatedBlog, s2)
                       | _ \<Rightarrow> (Inl Unmodelled, s))
                  | _ \<Rightarrow> (Inl InternalError, s))))"

text \<open>
  \<open>DELETE /blogs/:id\<close>. The loop over the scanned comments deletes the key built from each
  comment's own \<open>id\<close> field.
\<close>

definition deleteBlog :: "string option \<Rightarrow> string \<Rightarrow> store \<Rightarrow> (error + unit) \<times> store" where
  "deleteBlog caller blogId s =
     (case caller of
        None \<Rightarrow> (Inl AuthError, s)
      | Some userId \<Rightarrow>
          (case kv_get s (blog_key blogId) of
             None \<Rightarrow> (Inl NotFoundError, s)
           | Some blog \<Rightarrow>
               if authorId_field blog \<noteq> Some userId then (Inl ForbiddenError, s)
               else
                 let s1 = kv_del s (blog_key blogId);
                     s2 = kv_del s1 (published_key blogId)
                 in (case user_blogs s2 userId of
                       None \<Rightarrow> (Inl InternalError, s2)
                     | Some userBlogs \<Rightarrow>
                         let updatedUserBlogs = filter (\<lambda>i. i \<noteq> blogId) userBlogs;
                             s3 = kv_set s2 (user_blogs_key userId) (BlogIds updatedUserBlogs);
                             comments = kv_getByPrefix s3 (comment_prefix blogId);
                             s4 = fold (\<lambda>c st. kv_del st (comment_key blogId (template (id_field c))))
                                    comments s3
                         in (Inr (), s4))))"

text \<open>
  \<open>GET /blogs/:slug\<close>. The parameter \<open>:slug\<close> of the route stands for a path segment that is
  not empty: the path \<open>/blogs/\<close> matches no route, the handler does not run and the router
  answers with status 404. \<open>targetBlogId\<close> is the \<open>id\<close> of the first scanned entry with the
  slug; the test \<open>!targetBlogId\<close> also rejects an empty id.
\<close>

definition getBlogBySlug :: "string \<Rightarrow> store \<Rightarrow> (error + blog \<times> author_info) \<times> store" where
  "getBlogBySlug slug s =
     (if slug = [] then (Inl NotFoundError, s)
      else
        let publishedBlogs = kv_getByPrefix s published_prefix;
            targetBlogId = (case find (\<lambda>blogIndex. slug_field blogIndex = Some slug) publishedBlogs of
                              None \<Rightarrow> None
                            | Some blogIndex \<Rightarrow> id_field blogIndex)
        in case targetBlogId of
             None \<Rightarrow> (Inl NotFoundError, s)
           | Some target \<Rightarrow>
               if target = [] then (Inl NotFoundError, s)
               else
                 (case kv_get s (blog_key target) of
                    None \<Rightarrow> (Inl NotFoundError, s)
                  | Some (Blog blog) \<Rightarrow>
                      let viewed = blog\<lparr>b_views := b_views blog + 1\<rparr>;
                          s1 = kv_set s (blog_key target) (Blog viewed)
                      in (Inr (viewed, author_of s1 (b_authorId viewed)), s1)
                  | Some _ \<Rightarrow> (Inl Unmodelled, s)))"

section \<open>Listing\<close>

text \<open>
  The numbers of the handler of \<open>GET /blogs\<close>. A JavaScript number is a double. Every number
  that the handler computes from \<open>page\<close> and \<open>limit\<close> is a double with an integer value, an
  infinity or \<open>NaN\<close>: \<open>parseInt\<close> returns such a number, and the sum, the difference and the
  product of two doubles with integer values are rounded to a double with an integer value or
  to an infinity. \<open>Num n\<close> is the finite double of value \<open>n\<close>.

  The sign of a zero is not kept. Nothing that the handler does with these numbers tells the
  two zeros apart: \<open>slice\<close> reads both as index 0, a division by either gives an infinity or
  \<open>NaN\<close>, and JSON writes both as \<open>0\<close>.
\<close>

datatype jsnum = NaN | NegInfinity | Num int | Infinity

text \<open>The number of binary digits of a positive integer.\<close>

function bit_length :: "int \<Rightarrow> nat" where
  "bit_length n = (if n \<le> 0 then 0 else Suc (bit_length (n div 2)))"
  by pat_completeness auto

termination
  by (relation "measure nat") auto

declare bit_length.simps [simp del]

text \<open>
  The double nearest to an integer, as IEEE 754 rounds the exact result of an operation: an
  integer below \<open>2^53\<close> in magnitude is a double; a larger one keeps its 53 leading binary
  digits, rounded to the nearest value and to the even one of two that are equally near; from
  \<open>2^1024\<close> on the rounded magnitude is no double, and the result is an infinity.
\<close>

definition to_double :: "int \<Rightarrow> jsnum" where
  "to_double n =
     (let a = abs n
      in if a < 2 ^ 53 then Num n
         else
           let e = bit_length a - 53;
               q = a div 2 ^ e;
               r = a mod 2 ^ e;
               m = (if 2 ^ e < 2 * r \<or> (2 * r = 2 ^ e \<and> odd q) then q + 1 else q) * 2 ^ e
           in if 2 ^ 1024 \<le> m then (if n < 0 then NegInfinity else Infinity)
              else Num (if n < 0 then - m else m))"

text \<open>
  \<open>parseInt(text)\<close> without a radix: leading white space is skipped, then a sign is read, then
  the prefix \<open>0x\<close> or \<open>0X\<close>, which selects radix 16 in place of 10, then the longest run of
  digits of the radix. Without a digit the result is \<open>NaN\<close>; otherwise it is the double nearest
  to the integer that the digits spell, with the sign. (ECMAScript allows an engine to read the
  decimal digits after the twentieth as zeros; the model keeps them. The choice matters only
  for a number of more than 20 digits.)
\<close>

definition digit_value :: "char \<Rightarrow> nat" where
  "digit_value c =
     (let n = code c
      in if 48 \<le> n \<and> n \<le> 57 then n - 48
         else if 97 \<le> n \<and> n \<le> 122 then n - 87
         else if 65 \<le> n \<and> n \<le> 90 then n - 55
         else 36)"

definition parseInt :: "string \<Rightarrow> jsnum" where
  "parseInt text =
     (let s = dropWhile is_space text;
          negative = (take 1 s = ''-'');
          s1 = (if take 1 s = ''+'' \<or> take 1 s = ''-'' then drop 1 s else s);
          hex = (take 2 s1 = ''0x'' \<or> take 2 s1 = ''0X'');
          radix = (if hex then 16 else 10);
          z = takeWhile (\<lambda>c. digit_value c < radix) (if hex then drop 2 s1 else s1)
      in if z = [] then NaN
         else
           let mathInt = foldl (\<lambda>acc c. acc * int radix + int (digit_value c)) 0 z
           in to_double (if negative then - mathInt else mathInt))"

text \<open>
  The arithmetic of the handler: \<open>a + b\<close>, \<open>a - b\<close> and \<open>a * b\<close> on these numbers. An operation
  with \<open>NaN\<close> gives \<open>NaN\<close>, and so do the difference of two equal infinities and the product of
  an infinity and zero.
\<close>

fun js_neg :: "jsnum \<Rightarrow> jsnum" where
  "js_neg NaN = NaN"
| "js_neg (Num a) = Num (- a)"
| "js_neg Infinity = NegInfinity"
| "js_neg NegInfinity = Infinity"

fun js_add :: "jsnum \<Rightarrow> jsnum \<Rightarrow> jsnum" where
  "js_add NaN b = NaN"
| "js_add a NaN = NaN"
| "js_add (Num a) (Num b) = to_double (a + b)"
| "js_add Infinity NegInfinity = NaN"
| "js_add NegInfinity Infinity = NaN"
| "js_add (Num a) b = b"
| "js_add a b = a"

definition js_sub :: "jsnum \<Rightarrow> jsnum \<Rightarrow> jsnum" where
  "js_sub a b = js_add a (js_neg b)"

fun sign_of :: "jsnum \<Rightarrow> int" where
  "sign_of NaN = 0"
| "sign_of (Num a) = sgn a"
| "sign_of Infinity = 1"
| "sign_of NegInfinity = - 1"

definition signed_infinity :: "int \<Rightarrow> jsnum" where
  "signed_infinity sign =
     (if sign = 0 then NaN else if sign < 0 then NegInfinity else Infinity)"

fun js_mul :: "jsnum \<Rightarrow> jsnum \<Rightarrow> jsnum" where
  "js_mul NaN b = NaN"
| "js_mul a NaN = NaN"
| "js_mul (Num a) (Num b) = to_double (a * b)"
| "js_mul a b = signed_infinity (sign_of a * sign_of b)"

text \<open>
  \<open>Array.prototype.slice(start, end)\<close>: \<open>NaN\<close> counts as 0, a negative index counts from the
  end of the array, and both indices are clamped to the array.
\<close>

definition relative_index :: "nat \<Rightarrow> jsnum \<Rightarrow> int" where
  "relative_index len n =
     (case n of
        NaN \<Rightarrow> 0
      | NegInfinity \<Rightarrow> 0
      | Infinity \<Rightarrow> int len
      | Num i \<Rightarrow> if i < 0 then max (int len + i) 0 else min i (int len))"

definition js_slice :: "'a list \<Rightarrow> jsnum \<Rightarrow> jsnum \<Rightarrow> 'a list" where
  "js_slice xs start fin =
     (let k = relative_index (length xs) start;
          final = relative_index (length xs) fin
      in take (nat (final - k)) (drop (nat k) xs))"

text \<open>
  \<open>Math.ceil(n / limit)\<close> for the length \<open>n\<close> of an array, as it is serialised in the
  response: a division by zero or by \<open>NaN\<close> gives an infinity or \<open>NaN\<close>, which JSON writes as
  \<open>null\<close> (\<open>None\<close>); a division by an infinity gives zero. The length of an array is below
  \<open>2^32\<close>, and for such an \<open>n\<close> the double nearest to the quotient has the same ceiling as the
  quotient.
\<close>

definition js_ceil_div :: "nat \<Rightarrow> jsnum \<Rightarrow> int option" where
  "js_ceil_div n limit =
     (case limit of
        NaN \<Rightarrow> None
      | NegInfinity \<Rightarrow> Some 0
      | Infinity \<Rightarrow> Some 0
      | Num l \<Rightarrow> if l = 0 then None else Some \<lceil>real n / real_of_int l\<rceil>)"

text \<open>
  The query parameters of \<open>GET /blogs\<close> as \<open>c.req.query\<close> returns them; \<open>None\<close> is an absent
  parameter.
\<close>

record list_query =
  q_search :: "string option"
  q_tag :: "string option"
  q_page :: "string option"
  q_limit :: "string option"
  q_authorId :: "string option"

definition or_else :: "'a option \<Rightarrow> 'a \<Rightarrow> 'a" where
  "or_else x d = (case x of None \<Rightarrow> d | Some v \<Rightarrow> v)"

text \<open>\<open>c.req.query(name) || fallback\<close>: an absent and an empty parameter give the fallback.\<close>

definition param_or :: "string option \<Rightarrow> string \<Rightarrow> string" where
  "param_or x fallback = (case x of None \<Rightarrow> fallback | Some v \<Rightarrow> if v = [] then fallback else v)"

text \<open>\<open>haystack.includes(needle)\<close> on strings.\<close>

definition str_includes :: "string \<Rightarrow> string \<Rightarrow> bool" where
  "str_includes haystack needle = sublist needle haystack"

text \<open>The two \<open>continue\<close> tests of the scan: a blog is kept when neither fires.\<close>

definition search_filter :: "string \<Rightarrow> blog \<Rightarrow> bool" where
  "search_filter search blog =
     (\<not> (search \<noteq> []
         \<and> \<not> str_includes (toLowerCase (b_title blog)) (toLowerCase search)
         \<and> \<not> str_includes (toLowerCase (b_content blog)) (toLowerCase search)))"

definition tag_filter :: "string \<Rightarrow> blog \<Rightarrow> bool" where
  "tag_filter tag blog = (\<not> (tag \<noteq> [] \<and> toLowerCase tag \<notin> set (b_tags blog)))"

text \<open>The loop over the published index, which collects \<open>blog.id\<close> of the blogs kept.\<close>

fun collect_ids :: "store \<Rightarrow> string \<Rightarrow> string \<Rightarrow> kv_value list \<Rightarrow> error + string list" where
  "collect_ids s search tag [] = Inr []"
| "collect_ids s search tag (blogIndex # rest) =
     (case kv_get s (blog_key (template (id_field blogIndex))) of
        None \<Rightarrow> collect_ids s search tag rest
      | Some (Blog blog) \<Rightarrow>
          (case collect_ids s search tag rest of
             Inl e \<Rightarrow> Inl e
           | Inr blogIds \<Rightarrow>
               Inr (if search_filter search blog \<and> tag_filter tag blog
                    then b_id blog # blogIds else blogIds))
      | Some _ \<Rightarrow> Inl Unmodelled)"

text \<open>\<open>blogIds.map(id => kv.get(`blog:${id}`))\<close> followed by \<open>filter(blog => blog)\<close>.\<close>

fun fetch_blogs :: "store \<Rightarrow> string list \<Rightarrow> error + blog list" where
  "fetch_blogs s [] = Inr []"
| "fetch_blogs s (i # ids) =
     (case kv_get s (blog_key i) of
        None \<Rightarrow> fetch_blogs s ids
      | Some (Blog blog) \<Rightarrow>
          (case fetch_blogs s ids of Inl e \<Rightarrow> Inl e | Inr blogs \<Rightarrow> Inr (blog # blogs))
      | Some _ \<Rightarrow> Inl Unmodelled)"

text \<open>
  \<open>sort((a, b) => time(b.createdAt) - time(a.createdAt))\<close>: the sort of the array is stable,
  so it is the insertion sort by the negated time.
\<close>

definition newest_first :: "blog list \<Rightarrow> blog list" where
  "newest_first blogs = sort_key (\<lambda>blog. - b_createdAt blog) blogs"

text \<open>The blogs that match, sorted: \<open>validBlogs\<close> of the handler.\<close>

definition validBlogs :: "store \<Rightarrow> string \<Rightarrow> string \<Rightarrow> error + blog list" where
  "validBlogs s search tag =
     (case collect_ids s search tag (kv_getByPrefix s published_prefix) of
        Inl e \<Rightarrow> Inl e
      | Inr blogIds \<Rightarrow>
          (case fetch_blogs s blogIds of
             Inl e \<Rightarrow> Inl e
           | Inr blogs \<Rightarrow> Inr (newest_first blogs)))"

record blog_page =
  pg_blogs :: "(blog \<times> author_info) list"
  pg_total :: nat
  pg_page :: jsnum
  pg_totalPages :: "int option"

datatype list_response =
    AuthorBlogs "kv_value list" nat
  | BlogPage blog_page

text \<open>
  \<open>GET /blogs\<close>. With \<open>authorId\<close> the author's list is returned whole: every record that
  exists and is not a draft, or every record that exists when the caller is the author.
\<close>

definition listBlogs :: "string option \<Rightarrow> list_query \<Rightarrow> store \<Rightarrow> error + list_response" where
  "listBlogs caller q s =
     (let search = or_else (q_search q) [];
          tag = or_else (q_tag q) [];
          page = parseInt (param_or (q_page q) ''1'');
          limit = parseInt (param_or (q_limit q) ''10'');
          authorId = or_else (q_authorId q) []
      in if authorId \<noteq> [] then
           (let isOwner = (caller = Some authorId)
            in case user_blogs s authorId of
                 None \<Rightarrow> Inl InternalError
               | Some userBlogs \<Rightarrow>
                   let blogs = map (\<lambda>i. kv_get s (blog_key i)) userBlogs;
                       filteredBlogs = concat (map (\<lambda>blog. case blog of
                            None \<Rightarrow> []
                          | Some b \<Rightarrow> if isOwner \<or> \<not> isDraft_field b then [b] else []) blogs)
                   in Inr (AuthorBlogs filteredBlogs (length filteredBlogs)))
         else
           (case validBlogs s search tag of
              Inl e \<Rightarrow> Inl e
            | Inr valid \<Rightarrow>
                let startIndex = js_mul (js_sub page (Num 1)) limit;
                    endIndex = js_add startIndex limit;
                    paginatedBlogs = js_slice valid startIndex endIndex;
                    blogsWithAuthors =
                      map (\<lambda>blog. (blog, author_of s (b_authorId blog))) paginatedBlogs
                in Inr (BlogPage \<lparr>pg_blogs = blogsWithAuthors, pg_total = length valid,
                                   pg_page = page,
                                   pg_totalPages = js_ceil_div (length valid) limit\<rparr>)))"

section \<open>Comments\<close>

text \<open>
  \<open>POST /blogs/:blogId/comments\<close>. The response reads \<open>author.id\<close> of the caller's profile
  after the comment is written; without a profile that raises a \<open>TypeError\<close>.
\<close>

definition addComment ::
  "string option \<Rightarrow> string \<Rightarrow> string option \<Rightarrow> string \<Rightarrow> timestamp \<Rightarrow> store
     \<Rightarrow> (error + comment \<times> author_info) \<times> store" where
  "addComment caller blogId content commentId now s =
     (case caller of
        None \<Rightarrow> (Inl AuthError, s)
      | Some userId \<Rightarrow>
          if (case content of None \<Rightarrow> True | Some text \<Rightarrow> trim text = [])
          then (Inl ValidationError, s)
          else
            (case kv_get s (blog_key blogId) of
               None \<Rightarrow> (Inl NotFoundError, s)
             | Some blog \<Rightarrow>
                 if isDraft_field blog then (Inl NotFoundError, s)
                 else
                   let comment = \<lparr>cm_id = commentId, cm_blogId = blogId,
                                   cm_content = trim (or_else content []),
                                   cm_authorId = userId, cm_createdAt = now\<rparr>;
                       s1 = kv_set s (comment_key blogId commentId) (Comment comment)
                   in (case kv_get s1 (user_key userId) of
                         None \<Rightarrow> (Inl InternalError, s1)
                       | Some author \<Rightarrow>
                           (Inr (comment, Some (id_field author, name_field author)), s1))))"

fun with_authors :: "store \<Rightarrow> kv_value list \<Rightarrow> error + (comment \<times> author_info) list" where
  "with_authors s [] = Inr []"
| "with_authors s (Comment c # rest) =
     (case with_authors s rest of
        Inl e \<Rightarrow> Inl e
      | Inr cs \<Rightarrow> Inr ((c, author_of s (cm_authorId c)) # cs))"
| "with_authors s (_ # rest) = Inl Unmodelled"

text \<open>\<open>GET /blogs/:blogId/comments\<close>.\<close>

definition listComments :: "string \<Rightarrow> store \<Rightarrow> error + (comment \<times> author_info) list" where
  "listComments blogId s =
     (case with_authors s (kv_getByPrefix s (comment_prefix blogId)) of
        Inl e \<Rightarrow> Inl e
      | Inr commentsWithAuthors \<Rightarrow>
          Inr (sort_key (\<lambda>c. - cm_createdAt (fst c)) commentsWithAuthors))"

section \<open>Profiles\<close>

text \<open>The JSON body of \<open>PUT /users/:userId\<close>; an absent field is \<open>None\<close>.\<close>

record profile_patch =
  p_name :: "string option"
  p_email :: "string option"
  p_bio :: "string option"
  p_location :: "string option"
  p_phone :: "string option"
  p_website :: "string option"
  p_avatar :: "string option"
  p_socialLinks :: "(string \<times> string) list option"
  p_preferences :: "(string \<times> bool) list option"

text \<open>\<open>field?.trim() || fallback\<close>.\<close>

definition trim_or :: "string option \<Rightarrow> string \<Rightarrow> string" where
  "trim_or field fallback =
     (case field of
        None \<Rightarrow> fallback
      | Some text \<Rightarrow> if trim text = [] then fallback else trim text)"

text \<open>
  The object spread \<open>{...a, ...b}\<close> on dictionaries: the entries of \<open>a\<close>, overwritten and
  extended by those of \<open>b\<close>.
\<close>

definition spread :: "(string \<times> 'v) list \<Rightarrow> (string \<times> 'v) list \<Rightarrow> (string \<times> 'v) list" where
  "spread a b = AList.merge a b"

definition updateProfile ::
  "string option \<Rightarrow> string \<Rightarrow> profile_patch \<Rightarrow> timestamp \<Rightarrow> store \<Rightarrow> (error + user) \<times> store" where
  "updateProfile caller userId patch now s =
     (case caller of
        None \<Rightarrow> (Inl AuthError, s)
      | Some callerId \<Rightarrow>
          if callerId \<noteq> userId then (Inl ForbiddenError, s)
          else
            (case kv_get s (user_key userId) of
               None \<Rightarrow> (Inl NotFoundError, s)
             | Some (User existingUser) \<Rightarrow>
                 if (case p_name patch of None \<Rightarrow> True | Some name \<Rightarrow> trim name = [])
                 then (Inl ValidationError, s)
                 else
                   let updatedUser = existingUser
                         \<lparr>usr_name := trim (or_else (p_name patch) []),
                          usr_email := trim_or (p_email patch) (usr_email existingUser),
                          usr_bio := trim_or (p_bio patch) [],
                          usr_location := trim_or (p_location patch) [],
                          usr_phone := trim_or (p_phone patch) [],
                          usr_website := trim_or (p_website patch) [],
                          usr_avatar := trim_or (p_avatar patch) [],
                          usr_socialLinks := or_else (p_socialLinks patch) [],
                          usr_preferences :=
                            spread (usr_preferences existingUser) (or_else (p_preferences patch) []),
                          usr_updatedAt := Some now\<rparr>;
                       s1 = kv_set s (user_key userId) (User updatedUser)
                   in (Inr updatedUser, s1)
             | Some _ \<Rightarrow> (Inl Unmodelled, s)))"

section \<open>Tag editor\<close>


section \<open>Identifiers\<close>

text \<open>
  \<open>crypto.randomUUID()\<close> returns 36 characters, hexadecimal digits and hyphens. What the
  theorems need of an identifier is that it is not empty and has no colon, the separator of
  the keys.
\<close>

definition colon_free :: "string \<Rightarrow> bool" where
  "colon_free i = (i \<noteq> [] \<and> CHR '':'' \<notin> set i)"

section \<open>Predicates of the properties\<close>

text \<open>Two hyphens next to each other somewhere in a string.\<close>

fun adjacent_hyphens :: "string \<Rightarrow> bool" where
  "adjacent_hyphens (a # b # cs) = ((a = hyphen \<and> b = hyphen) \<or> adjacent_hyphens (b # cs))"
| "adjacent_hyphens _ = False"

text \<open>A text of \<open>n\<close> words, each followed by a blank.\<close>

definition sample_words :: "nat \<Rightarrow> string" where
  "sample_words n = concat (replicate n ''word '')"

text \<open>
  The published index mirrors the blog records at one blog id: an index entry exists exactly
  when the blog record exists and is not a draft, and the entry carries the record's
  \<open>createdAt\<close>.
\<close>

definition index_mirrors :: "store \<Rightarrow> string \<Rightarrow> bool" where
  "index_mirrors s blogId =
     (case kv_get s (published_key blogId) of
        None \<Rightarrow> (case kv_get s (blog_key blogId) of Some (Blog b) \<Rightarrow> b_isDraft b | _ \<Rightarrow> True)
      | Some (Published e) \<Rightarrow>
          (case kv_get s (blog_key blogId) of
             Some (Blog b) \<Rightarrow> \<not> b_isDraft b \<and> ix_createdAt e = b_createdAt b
           | _ \<Rightarrow> False)
      | Some _ \<Rightarrow> False)"

text \<open>
  The comments of a blog are keyed by their own ids: every key that starts with the comment
  prefix of the blog is this prefix followed by the \<open>id\<close> of the value stored under it, as
  \<open>addComment\<close> writes it.
\<close>

definition comments_keyed :: "store \<Rightarrow> string \<Rightarrow> bool" where
  "comments_keyed s blogId =
     list_all (\<lambda>kv. prefix (comment_prefix blogId) (fst kv)
                 \<longrightarrow> fst kv = comment_key blogId (template (id_field (snd kv)))) s"

text \<open>
  The blog keys hold what the handlers write there for identifiers without a colon: an index
  entry under every key that starts with \<open>blog:published:\<close>, and under every other key that
  starts with \<open>blog:\<close> a blog record, stored under its own id.
\<close>

definition well_shaped :: "string \<Rightarrow> kv_value \<Rightarrow> bool" where
  "well_shaped k v =
     (if prefix published_prefix k
      then (case v of Published e \<Rightarrow> colon_free (ix_id e) | _ \<Rightarrow> False)
      else if prefix ''blog:'' k
      then (case v of Blog b \<Rightarrow> k = blog_key (b_id b) \<and> colon_free (b_id b) | _ \<Rightarrow> False)
      else True)"

definition blog_space_typed :: "store \<Rightarrow> bool" where
  "blog_space_typed s = list_all (\<lambda>kv. well_shaped (fst kv) (snd kv)) s"

text \<open>
  The other keys hold what the handlers write there for identifiers without a colon: under a
  comment key a comment stored under its own blog id and id, under the key of a user's blog
  list an array, under every other user key a profile.
\<close>

definition side_shaped :: "string \<Rightarrow> kv_value \<Rightarrow> bool" where
  "side_shaped k v =
     (if prefix ''comment:'' k
      then (case v of
              Comment c \<Rightarrow> colon_free (cm_blogId c) \<and> colon_free (cm_id c)
                           \<and> k = comment_key (cm_blogId c) (cm_id c)
            | _ \<Rightarrow> False)
      else if prefix ''user:'' k \<and> suffix '':blogs'' (drop 5 k)
      then (case v of BlogIds xs \<Rightarrow> True | _ \<Rightarrow> False)
      else if prefix ''user:'' k
      then (case v of User u \<Rightarrow> True | _ \<Rightarrow> False)
      else True)"

definition side_keys_typed :: "store \<Rightarrow> bool" where
  "side_keys_typed s = list_all (\<lambda>kv. side_shaped (fst kv) (snd kv)) s"

text \<open>
  The specification's lookup: the first entry of the published index, in the order of the
  scan, whose slug is the one asked for.
\<close>

fun first_index_entry :: "store \<Rightarrow> string \<Rightarrow> index_entry option" where
  "first_index_entry [] slug = None"
| "first_index_entry (kv # rest) slug =
     (case snd kv of
        Published e \<Rightarrow>
          if prefix published_prefix (fst kv) \<and> ix_slug e = slug then Some e
          else first_index_entry rest slug
      | _ \<Rightarrow> first_index_entry rest slug)"

text \<open>
  The published index is keyed by blog id: no key occurs twice in the store, and every value
  that a scan of the index returns is stored under the index key of its own \<open>id\<close>, as
  \<open>createBlog\<close> and \<open>updateBlog\<close> write it. Then no two entries of the index point to the same
  blog.
\<close>

definition index_keyed :: "store \<Rightarrow> bool" where
  "index_keyed s =
     (distinct (map fst s)
      \<and> list_all (\<lambda>kv. prefix published_prefix (fst kv)
                     \<longrightarrow> fst kv = published_key (template (id_field (snd kv)))) s)"

text \<open>The three properties of the stores that the handlers build.\<close>

definition well_formed :: "store \<Rightarrow> bool" where
  "well_formed s = (blog_space_typed s \<and> side_keys_typed s \<and> index_keyed s)"

text \<open>
  A blog matches a listing when some entry of the published index points to its record and the
  record passes the search and the tag test.
\<close>

definition published_match :: "store \<Rightarrow> string \<Rightarrow> string \<Rightarrow> blog \<Rightarrow> bool" where
  "published_match s search tag blog =
     (list_ex (\<lambda>v. case v of
                      Published e \<Rightarrow> kv_get s (blog_key (ix_id e)) = Some (Blog blog)
                    | _ \<Rightarrow> False)
        (kv_getByPrefix s published_prefix)
      \<and> search_filter search blog \<and> tag_filter tag blog)"

text \<open>
  A number from \<open>2^53\<close> on, \<open>Infinity\<close> included. Below \<open>2^53\<close> every integer is a double, so
  the arithmetic of the handler is exact there; from \<open>2^53\<close> on a result may be rounded, and it
  stays in this range.
\<close>

definition beyond_exact :: "jsnum \<Rightarrow> bool" where
  "beyond_exact n = (case n of Infinity \<Rightarrow> True | Num m \<Rightarrow> 2 ^ 53 \<le> m | _ \<Rightarrow> False)"

text \<open>Of a page: the number of blogs on it, the total and the number of pages.\<close>

definition page_summary :: "error + list_response \<Rightarrow> (nat \<times> nat \<times> int option) option" where
  "page_summary r =
     (case r of
        Inr (BlogPage pg) \<Rightarrow> Some (length (pg_blogs pg), pg_total pg, pg_totalPages pg)
      | _ \<Rightarrow> None)"



section \<open>Sample data\<close>

definition sample_input :: blog_input where
  "sample_input = \<lparr>in_title = Some ''Hello World'', in_content = Some ''a first post'',
                    in_tags = Some [''react''], in_isDraft = None\<rparr>"

definition created_blog :: blog where
  "created_blog = \<lparr>b_id = ''b1'', b_title = ''Hello World'', b_content = ''a first post'',
                    b_slug = ''hello-world'', b_tags = [''react''], b_isDraft = False,
                    b_readingTime = 1, b_authorId = ''alice'', b_createdAt = 100,
                    b_updatedAt = 100, b_views = 0\<rparr>"

definition created_entry :: index_entry where
  "created_entry = \<lparr>ix_id = ''b1'', ix_title = ''Hello World'', ix_tags = Some [''react''],
                     ix_slug = ''hello-world'', ix_authorId = ''alice'', ix_createdAt = 100\<rparr>"

text \<open>The store after \<open>alice\<close> has published her first blog in an empty store.\<close>

definition created_store :: store where
  "created_store = [(''blog:b1'', Blog created_blog), (''user:alice:blogs'', BlogIds [''b1'']),
                    (''blog:published:b1'', Published created_entry)]"

text \<open>The same blog after \<open>alice\<close> has turned it back into a draft at time 200.\<close>

definition withdrawn_blog :: blog where
  "withdrawn_blog = created_blog\<lparr>b_isDraft := True, b_updatedAt := 200\<rparr>"

definition withdrawn_store :: store where
  "withdrawn_store =
     [(''blog:b1'', Blog withdrawn_blog), (''user:alice:blogs'', BlogIds [''b1''])]"

definition empty_input :: blog_input where
  "empty_input = \<lparr>in_title = Some [], in_content = Some [], in_tags = None, in_isDraft = None\<rparr>"

text \<open>The published blog with two comments by \<open>bob\<close>.\<close>

definition commented_store :: store where
  "commented_store = created_store @
     [(''comment:b1:c1'', Comment \<lparr>cm_id = ''c1'', cm_blogId = ''b1'', cm_content = ''nice'',
                                    cm_authorId = ''bob'', cm_createdAt = 150\<rparr>),
      (''comment:b1:c2'', Comment \<lparr>cm_id = ''c2'', cm_blogId = ''b1'', cm_content = ''thanks'',
                                    cm_authorId = ''bob'', cm_createdAt = 160\<rparr>)]"

text \<open>A field of a patch that is omitted or empty after trimming.\<close>

definition blank :: "string option \<Rightarrow> bool" where
  "blank field = (case field of None \<Rightarrow> True | Some text \<Rightarrow> trim text = [])"

definition alice_profile :: user where
  "alice_profile = \<lparr>usr_id = ''alice'', usr_name = ''Alice'', usr_email = ''alice@example.org'',
      usr_bio = ''Writer'', usr_location = ''Pune'', usr_phone = ''12345'',
      usr_website = ''example.org'', usr_avatar = ''a.png'', usr_socialLinks = [],
      usr_preferences = [(''emailNotifications'', True), (''publicProfile'', True),
                         (''showEmail'', False), (''showPhone'', False), (''showLocation'', True)],
      usr_createdAt = 10, usr_updatedAt = None\<rparr>"

text \<open>A patch with a new name, a blank phone number and one preference.\<close>

definition name_patch :: profile_patch where
  "name_patch = \<lparr>p_name = Some '' Alice B '', p_email = None, p_bio = None, p_location = None,
                  p_phone = Some ''  '', p_website = None, p_avatar = None, p_socialLinks = None,
                  p_preferences = Some [(''showEmail'', True)]\<rparr>"

definition renamed_profile :: user where
  "renamed_profile = \<lparr>usr_id = ''alice'', usr_name = ''Alice B'', usr_email = ''alice@example.org'',
      usr_bio = [], usr_location = [], usr_phone = [], usr_website = [], usr_avatar = [],
      usr_socialLinks = [],
      usr_preferences = [(''emailNotifications'', True), (''publicProfile'', True),
                         (''showEmail'', True), (''showPhone'', False), (''showLocation'', True)],
      usr_createdAt = 10, usr_updatedAt = Some 500\<rparr>"

text \<open>A published blog together with its index entry, as \<open>createBlog\<close> writes them.\<close>

definition published_pair :: "blog \<Rightarrow> store" where
  "published_pair b =
     [(blog_key (b_id b), Blog b),
      (published_key (b_id b),
       Published \<lparr>ix_id = b_id b, ix_title = b_title b, ix_tags = Some (b_tags b),
                   ix_slug = b_slug b, ix_authorId = b_authorId b,
                   ix_createdAt = b_createdAt b\<rparr>)]"

definition titled_blog :: "string \<Rightarrow> string \<Rightarrow> timestamp \<Rightarrow> blog" where
  "titled_blog i t created =
     \<lparr>b_id = i, b_title = t, b_content = ''text'', b_slug = i, b_tags = [], b_isDraft = False,
      b_readingTime = 1, b_authorId = ''alice'', b_createdAt = created, b_updatedAt = created,
      b_views = 0\<rparr>"

text \<open>Three published blogs about foo, written at 100, 300 and 200, and one about bar.\<close>

definition foo_store :: store where
  "foo_store = published_pair (titled_blog ''b1'' ''Foo one'' 100)
             @ published_pair (titled_blog ''b2'' ''Foo two'' 300)
             @ published_pair (titled_blog ''b3'' ''Third foo'' 200)
             @ published_pair (titled_blog ''b4'' ''Bar'' 400)"

definition foo_query :: list_query where
  "foo_query = \<lparr>q_search = Some ''foo'', q_tag = None, q_page = Some ''2'',
                 q_limit = Some ''1'', q_authorId = None\<rparr>"

text \<open>A limit of 310 digits, the number \<open>10^309\<close>, which is above every finite double.\<close>

definition huge_limit :: string where
  "huge_limit = CHR ''1'' # replicate 309 CHR ''0''"

definition default_query :: list_query where
  "default_query =
     \<lparr>q_search = None, q_tag = None, q_page = None, q_limit = None, q_authorId = None\<rparr>"

text \<open>\<open>n\<close> published blogs with the ids \<open>x\<close>, \<open>xx\<close>, \<open>xxx\<close> and so on.\<close>

definition numbered_store :: "nat \<Rightarrow> store" where
  "numbered_store n =
     concat (map (\<lambda>i. published_pair (titled_blog (replicate (Suc i) CHR ''x'') ''post'' (int i)))
               [0..<n])"





text \<open>A blog whose title has no letter, digit, blank or hyphen, and the store after its creation.\<close>

definition marks_input :: blog_input where
  "marks_input = \<lparr>in_title = Some ''!!!'', in_content = Some ''no words'',
                   in_tags = None, in_isDraft = None\<rparr>"

definition marks_blog :: blog where
  "marks_blog = \<lparr>b_id = ''b1'', b_title = ''!!!'', b_content = ''no words'',
                  b_slug = [], b_tags = [], b_isDraft = False,
                  b_readingTime = 1, b_authorId = ''alice'', b_createdAt = 100,
                  b_updatedAt = 100, b_views = 0\<rparr>"

definition marks_entry :: index_entry where
  "marks_entry = \<lparr>ix_id = ''b1'', ix_title = ''!!!'', ix_tags = None, ix_slug = [],
                   ix_authorId = ''alice'', ix_createdAt = 100\<rparr>"

definition marks_store :: store where
  "marks_store = [(''blog:b1'', Blog marks_blog), (''user:alice:blogs'', BlogIds [''b1'']),
                  (''blog:published:b1'', Published marks_entry)]"

section \<open>Slugs\<close>

lemma hyphen_not_space: "\<not> is_space hyphen"
  by (simp add: is_space_def hyphen_def code_def)

lemma set_replace_runs: "set (replace_runs P s) \<subseteq> {c \<in> set s. \<not> P c} \<union> {hyphen}"
proof (induction P s rule: replace_runs.induct)
  case (1 P)
  then show ?case by simp
next
  case (2 P c cs)
  have "set (dropWhile P cs) \<subseteq> set cs"
    by (simp add: set_dropWhileD subsetI)
  with 2 show ?case by (auto split: if_splits)
qed

lemma no_adjacent_replace_runs: "\<not> adjacent_hyphens (replace_runs (\<lambda>c. c = hyphen) s)"
proof (induction "(\<lambda>c. c = hyphen)" s rule: replace_runs.induct)
  case 1
  then show ?case by simp
next
  case (2 c cs)
  show ?case
  proof (cases "c = hyphen")
    case True
    let ?d = "dropWhile (\<lambda>c. c = hyphen) cs"
    have ih: "\<not> adjacent_hyphens (replace_runs (\<lambda>c. c = hyphen) ?d)"
      using 2(1) True by simp
    have step: "replace_runs (\<lambda>c. c = hyphen) (c # cs) = hyphen # replace_runs (\<lambda>c. c = hyphen) ?d"
      using True by simp
    show ?thesis
    proof (cases ?d)
      case Nil
      have "replace_runs (\<lambda>c. c = hyphen) ?d = []"
        by (simp only: Nil replace_runs.simps)
      with step show ?thesis by simp
    next
      case (Cons x xs)
      then have "x \<noteq> hyphen"
        using hd_dropWhile[of "(\<lambda>c. c = hyphen)" cs] by auto
      then show ?thesis using step Cons ih by simp
    qed
  next
    case False
    then show ?thesis
      using 2(2) by (cases "replace_runs (\<lambda>c. c = hyphen) cs") auto
  qed
qed

lemma trim_no_space: "\<forall>c \<in> set s. \<not> is_space c \<Longrightarrow> trim s = s"
  by (metis trim_def set_rev dropWhile_id rev_swap)

text \<open>
  What \<open>generateSlug\<close> does guarantee: only lowercase letters, digits and hyphens, and no two
  hyphens in a row. The final \<open>trim\<close> finds no whitespace left and changes nothing.
\<close>

lemma generateSlug_untrimmed:
  "generateSlug title =
     replace_runs (\<lambda>c. c = hyphen) (replace_runs is_space (filter slug_char (toLowerCase title)))"
proof -
  let ?a = "replace_runs is_space (filter slug_char (toLowerCase title))"
  have "\<forall>c \<in> set ?a. \<not> is_space c"
    using set_replace_runs[of is_space "filter slug_char (toLowerCase title)"] hyphen_not_space
    by auto
  then have "\<forall>c \<in> set (replace_runs (\<lambda>c. c = hyphen) ?a). \<not> is_space c"
    using set_replace_runs[of "\<lambda>c. c = hyphen" ?a] hyphen_not_space by auto
  then show ?thesis
    unfolding generateSlug_def by (rule trim_no_space)
qed

lemma generateSlug_alphabet:
  "\<forall>c \<in> set (generateSlug title). is_lower c \<or> is_digit c \<or> c = hyphen"
proof -
  let ?f = "filter slug_char (toLowerCase title)"
  have "\<forall>c \<in> set ?f. slug_char c" by simp
  then have "\<forall>c \<in> set (replace_runs is_space ?f). is_lower c \<or> is_digit c \<or> c = hyphen"
    using set_replace_runs[of is_space ?f] by (auto simp: slug_char_def)
  then show ?thesis
    using set_replace_runs[of "\<lambda>c. c = hyphen" "replace_runs is_space ?f"]
    by (auto simp: generateSlug_untrimmed)
qed

lemma generateSlug_no_adjacent_hyphens: "\<not> adjacent_hyphens (generateSlug title)"
  by (simp only: generateSlug_untrimmed no_adjacent_replace_runs not_False_eq_True)

text \<open>
  Claim C4: for every title the slug is lowercase, within \<open>[a-z0-9-]\<close>, and has no leading,
  trailing or doubled hyphen. The alphabet and the doubled hyphens are as claimed (the two
  lemmas above). The ends are not: \<open>trim\<close> removes whitespace, and by then the whitespace has
  become hyphens. A title that ends in a stripped character after a blank keeps the hyphen of
  the blank at the end of its slug, and one that starts so keeps it at the start.
\<close>

theorem generateSlug_keeps_outer_hyphens:
  "generateSlug ''Hello !'' = ''hello-'' \<and> generateSlug ''! Hello'' = ''-hello''"
  by code_simp

section \<open>Reading time\<close>

lemma count_runs_spaces: "\<forall>y \<in> set ys. is_space y \<Longrightarrow> count_runs b ys = 0"
  by (induction ys arbitrary: b) auto

lemma count_runs_append_spaces:
  "\<forall>y \<in> set ys. is_space y \<Longrightarrow> count_runs b (xs @ ys) = count_runs b xs"
  by (induction xs arbitrary: b) (auto simp: count_runs_spaces)

lemma count_runs_dropWhile: "count_runs False (dropWhile is_space s) = count_runs False s"
  by (induction s) auto

lemma trim_right_decomp:
  "s = rev (dropWhile is_space (rev s)) @ rev (takeWhile is_space (rev s))"
proof -
  have "rev s = takeWhile is_space (rev s) @ dropWhile is_space (rev s)" by simp
  then have "rev (rev s) = rev (takeWhile is_space (rev s) @ dropWhile is_space (rev s))"
    by (rule arg_cong)
  then show ?thesis by (simp only: rev_rev_ident rev_append)
qed

lemma count_runs_trim_right: "count_runs b (rev (dropWhile is_space (rev s))) = count_runs b s"
proof -
  have "\<forall>y \<in> set (rev (takeWhile is_space (rev s))). is_space y"
    by (auto dest: set_takeWhileD)
  then have "count_runs b (rev (dropWhile is_space (rev s)) @ rev (takeWhile is_space (rev s)))
      = count_runs b (rev (dropWhile is_space (rev s)))"
    by (rule count_runs_append_spaces)
  then show ?thesis using trim_right_decomp[of s] by simp
qed

lemma word_count_trim: "word_count (trim s) = word_count s"
  by (simp add: word_count_def trim_def count_runs_trim_right count_runs_dropWhile)

lemma count_runs_False_True:
  "s \<noteq> [] \<Longrightarrow> \<not> is_space (hd s) \<Longrightarrow> count_runs False s = Suc (count_runs True s)"
  by (cases s) auto

lemma last_dropWhile_nonempty: "dropWhile P xs \<noteq> [] \<Longrightarrow> last (dropWhile P xs) = last xs"
  by (induction xs) (auto split: if_splits)

text \<open>
  The number of pieces of a split: one more than the words that follow whitespace, and one
  more again when the string ends in whitespace.
\<close>

lemma length_split_ws:
  "length (split_ws s) = count_runs True s + (if s = [] \<or> \<not> is_space (last s) then 1 else 2)"
proof (induction s rule: split_ws.induct)
  case 1
  then show ?case by simp
next
  case (2 c cs)
  show ?case
  proof (cases "is_space c")
    case True
    let ?d = "dropWhile is_space cs"
    have len: "length (split_ws (c # cs)) = Suc (length (split_ws ?d))"
      using True by simp
    have cnt: "count_runs True (c # cs) = count_runs False ?d"
      using True by (simp add: count_runs_dropWhile)
    show ?thesis
    proof (cases "?d = []")
      case dn: True
      then have "\<forall>x \<in> set cs. is_space x" by simp
      then have "is_space (last (c # cs))" using True by (cases cs) auto
      moreover have "length (split_ws (c # cs)) = 2"
        using len by (simp only: dn split_ws.simps) simp
      moreover have "count_runs True (c # cs) = 0"
        using cnt by (simp only: dn count_runs.simps)
      ultimately show ?thesis by simp
    next
      case dc: False
      then have hd: "\<not> is_space (hd ?d)"
        using hd_dropWhile[of is_space cs] by simp
      have lst: "last (c # cs) = last ?d"
        using dc last_dropWhile_nonempty[of is_space cs] by (cases cs) auto
      have "count_runs False ?d = Suc (count_runs True ?d)"
        using dc hd by (rule count_runs_False_True)
      moreover have "length (split_ws ?d)
          = count_runs True ?d + (if \<not> is_space (last ?d) then 1 else 2)"
        using 2(1)[OF True] dc by (simp del: dropWhile_eq_Nil_conv)
      ultimately show ?thesis using len cnt lst by simp
    qed
  next
    case False
    have ne: "split_ws cs \<noteq> []" by (cases cs) (auto split: list.splits)
    then have "length (split_ws (c # cs)) = length (split_ws cs)"
      using False by (auto split: list.splits)
    moreover have "count_runs True (c # cs) = count_runs True cs" using False by simp
    moreover have "cs = [] \<Longrightarrow> ?thesis" using False by simp
    ultimately show ?thesis using 2(2)[OF False] False by (cases "cs = []") auto
  qed
qed

lemma trim_ends: "trim s = [] \<or> (\<not> is_space (hd (trim s)) \<and> \<not> is_space (last (trim s)))"
proof (cases "trim s = []")
  case True
  then show ?thesis by simp
next
  case False
  let ?d = "dropWhile is_space s"
  let ?r = "dropWhile is_space (rev ?d)"
  have t: "trim s = rev ?r" by (simp add: trim_def)
  with False have rne: "?r \<noteq> []" by simp
  have dne: "?d \<noteq> []"
  proof
    assume "?d = []"
    then have "?r = []" by (simp only: rev.simps dropWhile.simps)
    with rne show False by contradiction
  qed
  have "last (trim s) = hd ?r" using t rne by (simp add: last_rev)
  moreover have "\<not> is_space (hd ?r)" using rne hd_dropWhile[of is_space "rev ?d"] by blast
  moreover have "hd (trim s) = last ?r" using t rne by (simp add: hd_rev)
  moreover have "last ?r = last (rev ?d)" using rne by (rule last_dropWhile_nonempty)
  moreover have "last (rev ?d) = hd ?d" using dne by (simp add: last_rev)
  moreover have "\<not> is_space (hd ?d)" using dne hd_dropWhile[of is_space s] by blast
  ultimately show ?thesis by simp
qed

lemma length_split_ws_trim: "length (split_ws (trim s)) = max 1 (word_count s)"
proof (cases "trim s = []")
  case True
  then have "word_count s = 0" using word_count_trim[of s] by (simp add: word_count_def)
  then show ?thesis using True by simp
next
  case False
  then have e: "\<not> is_space (hd (trim s))" "\<not> is_space (last (trim s))"
    using trim_ends[of s] by auto
  have "word_count s = count_runs False (trim s)"
    using word_count_trim[of s] by (simp add: word_count_def)
  also have "\<dots> = Suc (count_runs True (trim s))"
    using False e(1) by (rule count_runs_False_True)
  finally show ?thesis using False e(2) by (simp add: length_split_ws)
qed

lemma ceil_div_200: "nat \<lceil>real n / 200\<rceil> = (n + 199) div 200"
  by linarith

lemma reading_time_words:
  "calculateReadingTime content = max 1 (nat \<lceil>real (word_count content) / 200\<rceil>)"
proof -
  have "calculateReadingTime content = nat \<lceil>real (max 1 (word_count content)) / 200\<rceil>"
    by (simp only: calculateReadingTime_def Let_def wordsPerMinute_def length_split_ws_trim) simp
  also have "\<dots> = (max 1 (word_count content) + 199) div 200" by (rule ceil_div_200)
  also have "\<dots> = max 1 ((word_count content + 199) div 200)"
    by (cases "word_count content = 0") (auto simp: max_def)
  finally show ?thesis by (simp only: ceil_div_200)
qed

lemma reading_time_empty: "calculateReadingTime [] = 1"
  using reading_time_words[of "[]"] by (simp add: word_count_def)

lemma word_count_sample_words: "word_count (sample_words n) = n"
proof -
  have "count_runs False (concat (replicate n ''word '')) = n"
    by (induction n) (simp_all add: is_space_def code_def)
  then show ?thesis by (simp add: word_count_def sample_words_def)
qed

text \<open>
  Claim C6: for every content string the reading time is the number of whitespace-separated
  words divided by 200 and rounded up, and at least 1; in particular 200 words give 1 and 201
  words give 2.
\<close>

theorem calculateReadingTime_ceiling:
  "calculateReadingTime content = max 1 (nat \<lceil>real (word_count content) / 200\<rceil>)
   \<and> (word_count content = 200 \<longrightarrow> calculateReadingTime content = 1)
   \<and> (word_count content = 201 \<longrightarrow> calculateReadingTime content = 2)"
  using reading_time_words[of content] by (simp add: ceil_div_200)

theorem calculateReadingTime_ceiling_witness:
  "word_count (sample_words 200) = 200 \<and> calculateReadingTime (sample_words 200) = 1
   \<and> word_count (sample_words 201) = 201 \<and> calculateReadingTime (sample_words 201) = 2"
  using calculateReadingTime_ceiling[of "sample_words 200"]
    calculateReadingTime_ceiling[of "sample_words 201"]
  by (simp add: word_count_sample_words)

section \<open>Store and keys\<close>

lemma kv_get_set: "kv_get (kv_set s k v) k' = (if k' = k then Some v else kv_get s k')"
  by (simp add: kv_get_def kv_set_def update_conv')

lemma kv_get_del: "kv_get (kv_del s k) k' = (if k' = k then None else kv_get s k')"
  by (simp add: kv_get_def kv_del_def delete_conv')

lemma kv_get_fold_del:
  "kv_get (fold (\<lambda>c st. kv_del st (f c)) cs st) k = (if k \<in> f ` set cs then None else kv_get st k)"
  by (induction cs arbitrary: st) (auto simp: kv_get_del)

lemma blog_key_inj: "blog_key i = blog_key j \<longleftrightarrow> i = j"
  by (simp add: blog_key_def)

lemma published_key_inj: "published_key i = published_key j \<longleftrightarrow> i = j"
  by (simp add: published_key_def)

text \<open>
  The two key families overlap: the index key of \<open>i\<close> is the blog key of \<open>published:i\<close>.
\<close>

lemma published_key_blog_key: "published_key i = blog_key j \<longleftrightarrow> j = ''published:'' @ i"
  by (auto simp add: published_key_def published_prefix_def blog_key_def)

lemma blog_key_published: "blog_key (''published:'' @ i) = published_key i"
  by (simp add: published_key_def published_prefix_def blog_key_def)

lemma blog_key_prefix: "prefix ''blog:'' (blog_key i)"
  by (simp add: blog_key_def)

lemma published_key_prefix: "prefix ''blog:'' (published_key i)"
  by (simp add: published_key_def published_prefix_def)

lemma user_blogs_key_prefix: "\<not> prefix ''blog:'' (user_blogs_key u)"
  by (simp add: user_blogs_key_def)

lemma comment_key_prefix: "\<not> prefix ''blog:'' (comment_key b c)"
  by (simp add: comment_key_def comment_prefix_def)

lemma published_key_neq_blog_key_same: "published_key i \<noteq> blog_key i"
proof
  assume "published_key i = blog_key i"
  then have "length (published_key i) = length (blog_key i)" by simp
  then show False by (simp add: published_key_def published_prefix_def blog_key_def)
qed

lemma published_self: "i \<noteq> ''published:'' @ i"
proof
  assume "i = ''published:'' @ i"
  then have "length i = length (''published:'' @ i)" by (rule arg_cong)
  then show False by simp
qed

lemma colon_free_noalias: "colon_free blogId \<Longrightarrow> \<forall>i. blogId \<noteq> ''published:'' @ i"
  by (auto simp: colon_free_def)

section \<open>The published index mirrors the drafts flag\<close>

lemma index_mirrors_iff:
  "index_mirrors s i \<longleftrightarrow>
     (kv_get s (published_key i) = None
        \<and> (\<forall>b. kv_get s (blog_key i) = Some (Blog b) \<longrightarrow> b_isDraft b))
     \<or> (\<exists>e b. kv_get s (published_key i) = Some (Published e)
            \<and> kv_get s (blog_key i) = Some (Blog b)
            \<and> \<not> b_isDraft b \<and> ix_createdAt e = b_createdAt b)"
  by (auto simp: index_mirrors_def split: option.splits kv_value.splits)

lemma index_mirrors_empty: "index_mirrors [] i"
  by (simp add: index_mirrors_def kv_get_def)

lemma index_mirrors_cong:
  "kv_get s' (published_key i) = kv_get s (published_key i) \<Longrightarrow>
   kv_get s' (blog_key i) = kv_get s (blog_key i) \<Longrightarrow> index_mirrors s' i = index_mirrors s i"
  by (simp only: index_mirrors_def)

lemma index_mirrors_published:
  "index_mirrors s i \<Longrightarrow>
   kv_get s (published_key i) = None \<or> (\<exists>e. kv_get s (published_key i) = Some (Published e))"
  by (auto simp: index_mirrors_iff)

lemma index_mirrors_no_blog_under_index:
  "index_mirrors s i \<Longrightarrow> kv_get s (published_key i) \<noteq> Some (Blog b)"
  by (auto simp: index_mirrors_iff)

lemma index_mirrors_nested:
  assumes "index_mirrors s j"
    and pub: "kv_get s (published_key i) = None
              \<or> (\<exists>e. kv_get s (published_key i) = Some (Published e))"
    and "j = ''published:'' @ i"
  shows "kv_get s (published_key j) = None"
proof -
  have "blog_key j = published_key i" unfolding assms(3) by (rule blog_key_published)
  then have "\<And>b. kv_get s (blog_key j) \<noteq> Some (Blog b)" using pub by auto
  then show ?thesis using assms(1) by (auto simp: index_mirrors_iff)
qed

text \<open>
  A write that touches only the blog key and the index key of one id, and leaves the index
  right at that id, leaves it right at every id, provided the id is not itself of the form
  \<open>published:i\<close>.
\<close>

lemma mirrors_preserved:
  assumes inv: "\<forall>i. index_mirrors s i"
    and frame: "\<forall>k. prefix ''blog:'' k \<longrightarrow> k \<noteq> blog_key blogId \<longrightarrow> k \<noteq> published_key blogId
                  \<longrightarrow> kv_get s' k = kv_get s k"
    and noalias: "\<forall>i. blogId \<noteq> ''published:'' @ i"
    and local: "index_mirrors s' blogId"
  shows "\<forall>i. index_mirrors s' i"
proof
  fix i
  consider "i = blogId" | "i = ''published:'' @ blogId"
    | "i \<noteq> blogId" "i \<noteq> ''published:'' @ blogId"
    by blast
  then show "index_mirrors s' i"
  proof cases
    case 1
    then show ?thesis using local by simp
  next
    case 2
    have bk: "blog_key i = published_key blogId" unfolding 2 by (rule blog_key_published)
    have "published_key i \<noteq> blog_key blogId"
      using noalias published_key_blog_key[of i blogId] by blast
    moreover have "published_key i \<noteq> published_key blogId"
      using 2 published_self[of blogId] published_key_inj[of i blogId] by blast
    ultimately have "kv_get s' (published_key i) = kv_get s (published_key i)"
      using frame published_key_prefix by blast
    also have "\<dots> = None"
      using index_mirrors_nested[of s i blogId] inv index_mirrors_published[of s blogId] 2
      by blast
    finally have a: "kv_get s' (published_key i) = None" .
    have "\<And>b. kv_get s' (blog_key i) \<noteq> Some (Blog b)"
      using bk index_mirrors_no_blog_under_index[OF local] by simp
    then show ?thesis using a by (auto simp: index_mirrors_iff)
  next
    case 3
    have "published_key i \<noteq> blog_key blogId"
      using noalias published_key_blog_key[of i blogId] by blast
    moreover have "published_key i \<noteq> published_key blogId"
      using 3 by (simp add: published_key_inj)
    ultimately have a: "kv_get s' (published_key i) = kv_get s (published_key i)"
      using frame published_key_prefix by blast
    have "blog_key i \<noteq> blog_key blogId" using 3 by (simp add: blog_key_inj)
    moreover have "blog_key i \<noteq> published_key blogId"
      using 3 published_key_blog_key[of blogId i] by auto
    ultimately have b: "kv_get s' (blog_key i) = kv_get s (blog_key i)"
      using frame blog_key_prefix by blast
    show ?thesis using inv index_mirrors_cong[OF a b] by simp
  qed
qed

lemma existing_blog_noalias:
  assumes inv: "\<forall>i. index_mirrors s i" and "kv_get s (blog_key blogId) = Some (Blog b)"
  shows "\<forall>i. blogId \<noteq> ''published:'' @ i"
proof (intro allI notI)
  fix i assume "blogId = ''published:'' @ i"
  then have "published_key i = blog_key blogId"
    using published_key_blog_key[of i blogId] by blast
  then show False
    using assms(2) index_mirrors_no_blog_under_index[of s i b] inv by simp
qed

lemma createBlog_mirrors:
  assumes inv: "\<forall>i. index_mirrors s i" and "colon_free blogId"
    and fresh: "kv_get s (blog_key blogId) = None"
    and ok: "createBlog caller inp blogId now s = (Inr blog, s')"
  shows "(\<forall>i. index_mirrors s' i) \<and> b_createdAt blog = now"
proof -
  from ok obtain userId title content userBlogs where
    blog: "blog = \<lparr>b_id = blogId, b_title = title, b_content = content,
                    b_slug = generateSlug title,
                    b_tags = (case in_tags inp of None \<Rightarrow> [] | Some ts \<Rightarrow> ts),
                    b_isDraft = (in_isDraft inp = Some True),
                    b_readingTime = calculateReadingTime content, b_authorId = userId,
                    b_createdAt = now, b_updatedAt = now, b_views = 0\<rparr>"
    and s': "s' = (let s2 = kv_set (kv_set s (blog_key blogId) (Blog blog))
                              (user_blogs_key userId) (BlogIds (userBlogs @ [blogId]))
                   in if in_isDraft inp \<noteq> Some True
                      then kv_set s2 (published_key blogId)
                             (Published \<lparr>ix_id = blogId, ix_title = title,
                                ix_tags = in_tags inp, ix_slug = generateSlug title,
                                ix_authorId = userId, ix_createdAt = now\<rparr>)
                      else s2)"
    by (auto simp: createBlog_def Let_def split: option.splits if_splits)
  have get: "\<And>k. prefix ''blog:'' k \<Longrightarrow> kv_get s' k =
      (if k = published_key blogId \<and> in_isDraft inp \<noteq> Some True
       then Some (Published \<lparr>ix_id = blogId, ix_title = title, ix_tags = in_tags inp,
                    ix_slug = generateSlug title, ix_authorId = userId, ix_createdAt = now\<rparr>)
       else if k = blog_key blogId then Some (Blog blog) else kv_get s k)"
    using user_blogs_key_prefix[of userId] by (auto simp: s' Let_def kv_get_set)
  have frame: "\<forall>k. prefix ''blog:'' k \<longrightarrow> k \<noteq> blog_key blogId \<longrightarrow> k \<noteq> published_key blogId
                  \<longrightarrow> kv_get s' k = kv_get s k"
    by (simp add: get)
  have old: "kv_get s (published_key blogId) = None"
    using inv fresh by (auto simp: index_mirrors_iff)
  have b: "kv_get s' (blog_key blogId) = Some (Blog blog)"
    using published_key_neq_blog_key_same[of blogId] by (simp add: get blog_key_prefix)
  have p: "kv_get s' (published_key blogId) =
      (if in_isDraft inp \<noteq> Some True
       then Some (Published \<lparr>ix_id = blogId, ix_title = title, ix_tags = in_tags inp,
                    ix_slug = generateSlug title, ix_authorId = userId, ix_createdAt = now\<rparr>)
       else None)"
    using published_key_neq_blog_key_same[of blogId] old
    by (simp add: get published_key_prefix)
  have local: "index_mirrors s' blogId"
    by (simp add: index_mirrors_iff b p) (simp add: blog)
  have "\<forall>i. index_mirrors s' i"
    using inv frame colon_free_noalias[OF assms(2)] local by (rule mirrors_preserved)
  then show ?thesis by (simp add: blog)
qed

lemma updateBlog_mirrors:
  assumes inv: "\<forall>i. index_mirrors s i" and ex: "kv_get s (blog_key blogId) = Some (Blog b)"
    and ok: "updateBlog caller blogId inp now s = (Inr blog, s')"
  shows "(\<forall>i. index_mirrors s' i) \<and> b_createdAt blog = b_createdAt b"
proof -
  from ok ex obtain userId title content where
    blog: "blog = b\<lparr>b_title := title, b_content := content, b_slug := generateSlug title,
                     b_tags := (case in_tags inp of None \<Rightarrow> [] | Some ts \<Rightarrow> ts),
                     b_isDraft := (case in_isDraft inp of Some d \<Rightarrow> d | None \<Rightarrow> b_isDraft b),
                     b_readingTime := calculateReadingTime content, b_updatedAt := now\<rparr>"
    and s': "s' = (let s1 = kv_set s (blog_key blogId) (Blog blog)
                   in if \<not> b_isDraft blog
                      then kv_set s1 (published_key blogId)
                             (Published \<lparr>ix_id = blogId, ix_title = title,
                                ix_tags = in_tags inp, ix_slug = generateSlug title,
                                ix_authorId = userId, ix_createdAt = b_createdAt b\<rparr>)
                      else kv_del s1 (published_key blogId))"
    by (auto simp: updateBlog_def Let_def split: option.splits if_splits)
  have get: "\<And>k. kv_get s' k =
      (if k = published_key blogId
       then (if \<not> b_isDraft blog
             then Some (Published \<lparr>ix_id = blogId, ix_title = title, ix_tags = in_tags inp,
                          ix_slug = generateSlug title, ix_authorId = userId,
                          ix_createdAt = b_createdAt b\<rparr>)
             else None)
       else if k = blog_key blogId then Some (Blog blog) else kv_get s k)"
    by (auto simp: s' Let_def kv_get_set kv_get_del)
  have frame: "\<forall>k. prefix ''blog:'' k \<longrightarrow> k \<noteq> blog_key blogId \<longrightarrow> k \<noteq> published_key blogId
                  \<longrightarrow> kv_get s' k = kv_get s k"
    by (simp add: get)
  have cr: "b_createdAt blog = b_createdAt b" by (simp add: blog)
  have bk: "kv_get s' (blog_key blogId) = Some (Blog blog)"
    using published_key_neq_blog_key_same[of blogId] by (simp add: get)
  have local: "index_mirrors s' blogId"
    by (simp add: index_mirrors_iff bk) (simp add: get cr)
  have "\<forall>i. index_mirrors s' i"
    using inv frame existing_blog_noalias[OF inv ex] local by (rule mirrors_preserved)
  then show ?thesis using cr by simp
qed

lemma deleteBlog_mirrors:
  assumes inv: "\<forall>i. index_mirrors s i" and ex: "kv_get s (blog_key blogId) = Some (Blog b)"
    and ok: "deleteBlog caller blogId s = (Inr u, s')"
  shows "\<forall>i. index_mirrors s' i"
proof -
  let ?s2 = "kv_del (kv_del s (blog_key blogId)) (published_key blogId)"
  from ok ex obtain userId userBlogs where
    s': "s' = (let s3 = kv_set ?s2 (user_blogs_key userId)
                          (BlogIds (filter (\<lambda>i. i \<noteq> blogId) userBlogs))
               in fold (\<lambda>c st. kv_del st (comment_key blogId (template (id_field c))))
                    (kv_getByPrefix s3 (comment_prefix blogId)) s3)"
    by (auto simp: deleteBlog_def Let_def split: option.splits if_splits)
  have get: "\<And>k. prefix ''blog:'' k \<Longrightarrow> kv_get s' k =
      (if k = published_key blogId \<or> k = blog_key blogId then None else kv_get s k)"
    using user_blogs_key_prefix[of userId] comment_key_prefix[of blogId]
    by (auto simp: s' Let_def kv_get_fold_del kv_get_set kv_get_del)
  have frame: "\<forall>k. prefix ''blog:'' k \<longrightarrow> k \<noteq> blog_key blogId \<longrightarrow> k \<noteq> published_key blogId
                  \<longrightarrow> kv_get s' k = kv_get s k"
    by (simp add: get)
  have local: "index_mirrors s' blogId"
    by (simp add: index_mirrors_iff get blog_key_prefix published_key_prefix)
  show ?thesis
    using inv frame existing_blog_noalias[OF inv ex] local by (rule mirrors_preserved)
qed

text \<open>
  The invariant \<open>index_mirrors\<close> at every id (read as a logical statement in
  \<open>index_mirrors_iff\<close>) holds in the empty store, and each operation on a blog record that
  succeeds keeps it: a creation under a fresh id without a colon, an update and a deletion of a
  blog record that exists. The created blog keeps the time of its creation, and an update
  leaves \<open>createdAt\<close> as it was, so the index never shows the time of an edit.
\<close>

lemma index_mirrors_preserved:
  assumes "\<forall>i. index_mirrors s i"
  shows "(colon_free blogId \<and> kv_get s (blog_key blogId) = None
            \<and> createBlog caller inp blogId now s = (Inr blog, s')
          \<longrightarrow> (\<forall>i. index_mirrors s' i) \<and> b_createdAt blog = now)
       \<and> (kv_get s (blog_key blogId) = Some (Blog b)
            \<and> updateBlog caller blogId inp now s = (Inr blog, s')
          \<longrightarrow> (\<forall>i. index_mirrors s' i) \<and> b_createdAt blog = b_createdAt b)
       \<and> (kv_get s (blog_key blogId) = Some (Blog b)
            \<and> deleteBlog caller blogId s = (Inr (), s')
          \<longrightarrow> (\<forall>i. index_mirrors s' i))"
  using assms createBlog_mirrors[of s blogId caller inp now blog s']
    updateBlog_mirrors[of s blogId b caller inp now blog s']
    deleteBlog_mirrors[of s blogId b caller "()" s']
  by blast

lemma index_mirrors_preserved_example:
  "(\<forall>i. index_mirrors [] i) \<and> colon_free ''b1'' \<and> kv_get [] (blog_key ''b1'') = None
   \<and> createBlog (Some ''alice'') sample_input ''b1'' 100 [] = (Inr created_blog, created_store)
   \<and> (\<forall>i. index_mirrors created_store i) \<and> b_createdAt created_blog = 100
   \<and> kv_get created_store (blog_key ''b1'') = Some (Blog created_blog)
   \<and> updateBlog (Some ''alice'') ''b1'' (sample_input\<lparr>in_isDraft := Some True\<rparr>) 200
         created_store
       = (Inr withdrawn_blog, withdrawn_store)
   \<and> (\<forall>i. index_mirrors withdrawn_store i) \<and> b_createdAt withdrawn_blog = 100
   \<and> deleteBlog (Some ''alice'') ''b1'' created_store
       = (Inr (), [(''user:alice:blogs'', BlogIds [])])
   \<and> (\<forall>i. index_mirrors [(''user:alice:blogs'', BlogIds [])] i)"
proof -
  have e: "\<forall>i. index_mirrors [] i" by (simp add: index_mirrors_empty)
  have c: "colon_free ''b1''" by (simp add: colon_free_def)
  have f: "kv_get [] (blog_key ''b1'') = None" by (simp add: kv_get_def)
  have cr: "createBlog (Some ''alice'') sample_input ''b1'' 100 []
      = (Inr created_blog, created_store)"
    by code_simp
  have i1: "(\<forall>i. index_mirrors created_store i) \<and> b_createdAt created_blog = 100"
    using index_mirrors_preserved[where s="[]" and blogId="''b1''" and caller="Some ''alice''"
        and inp=sample_input and now=100 and blog=created_blog and s'=created_store]
      e c f cr by blast
  have g: "kv_get created_store (blog_key ''b1'') = Some (Blog created_blog)" by code_simp
  have up: "updateBlog (Some ''alice'') ''b1'' (sample_input\<lparr>in_isDraft := Some True\<rparr>) 200
        created_store
      = (Inr withdrawn_blog, withdrawn_store)"
    by code_simp
  have i2: "(\<forall>i. index_mirrors withdrawn_store i)
      \<and> b_createdAt withdrawn_blog = b_createdAt created_blog"
    using index_mirrors_preserved[where s=created_store and blogId="''b1''" and b=created_blog
        and caller="Some ''alice''" and inp="sample_input\<lparr>in_isDraft := Some True\<rparr>"
        and now=200 and blog=withdrawn_blog and s'=withdrawn_store]
      i1 g up by blast
  have de: "deleteBlog (Some ''alice'') ''b1'' created_store
      = (Inr (), [(''user:alice:blogs'', BlogIds [])])"
    by code_simp
  have i3: "\<forall>i. index_mirrors [(''user:alice:blogs'', BlogIds [])] i"
    using index_mirrors_preserved[where s=created_store and blogId="''b1''" and b=created_blog
        and caller="Some ''alice''" and s'="[(''user:alice:blogs'', BlogIds [])]"]
      i1 g de by blast
  show ?thesis using e c f cr i1 g up i2 de i3 by simp
qed

text \<open>
  Claim C1: after every completed \<open>createBlog\<close>, \<open>updateBlog\<close> and \<open>deleteBlog\<close> the published
  index has an entry for a blog id exactly when the blog record exists and is not a draft, and
  the entry's \<open>createdAt\<close> is the blog's original \<open>createdAt\<close>.

  The handlers keep this for the operations on blog records (\<open>index_mirrors_preserved\<close>), but
  not for every operation that they accept. The key of an index entry is also a key of the blog
  records: \<open>blog:published:b1\<close> is the index key of \<open>b1\<close> and the blog key of the id
  \<open>published:b1\<close>, and an index entry has an \<open>authorId\<close>. So \<open>deleteBlog\<close> with the id
  \<open>published:b1\<close>, called by the author of the published blog \<open>b1\<close>, finds the index entry
  of \<open>b1\<close>, passes the ownership test on it, deletes it and succeeds. After this operation
  the record of \<open>b1\<close> is still there and not a draft, and its index entry is gone.
\<close>

theorem deleteBlog_index_key_alias:
  "createBlog (Some ''alice'') sample_input ''b1'' 100 [] = (Inr created_blog, created_store)
   \<and> index_mirrors created_store ''b1''
   \<and> deleteBlog (Some ''alice'') ''published:b1'' created_store
       = (Inr (), [(''blog:b1'', Blog created_blog), (''user:alice:blogs'', BlogIds [''b1''])])
   \<and> kv_get [(''blog:b1'', Blog created_blog), (''user:alice:blogs'', BlogIds [''b1''])]
         (blog_key ''b1'') = Some (Blog created_blog)
   \<and> \<not> b_isDraft created_blog
   \<and> kv_get [(''blog:b1'', Blog created_blog), (''user:alice:blogs'', BlogIds [''b1''])]
         (published_key ''b1'') = None
   \<and> \<not> index_mirrors [(''blog:b1'', Blog created_blog), (''user:alice:blogs'', BlogIds [''b1''])]
         ''b1''"
  by code_simp

section \<open>Ownership\<close>

text \<open>
  Claim C7: for every existing blog and every authenticated caller who is not its author,
  \<open>updateBlog\<close> and \<open>deleteBlog\<close> fail with ForbiddenError and leave the store unchanged.
  Both handlers return the store they were given, so the blog record, its index entry, the
  author's list of blog ids and the comments of the blog are what they were.
\<close>

theorem non_owner_forbidden:
  assumes "kv_get s (blog_key blogId) = Some (Blog b)" and "b_authorId b \<noteq> callerId"
  shows "updateBlog (Some callerId) blogId inp now s = (Inl ForbiddenError, s)
       \<and> deleteBlog (Some callerId) blogId s = (Inl ForbiddenError, s)"
  using assms by (simp add: updateBlog_def deleteBlog_def)

theorem non_owner_forbidden_witness:
  "kv_get created_store (blog_key ''b1'') = Some (Blog created_blog)
   \<and> b_authorId created_blog \<noteq> ''bob''
   \<and> updateBlog (Some ''bob'') ''b1'' sample_input 200 created_store
       = (Inl ForbiddenError, created_store)
   \<and> deleteBlog (Some ''bob'') ''b1'' created_store = (Inl ForbiddenError, created_store)"
proof -
  have g: "kv_get created_store (blog_key ''b1'') = Some (Blog created_blog)" by code_simp
  have a: "b_authorId created_blog \<noteq> ''bob''" by (simp add: created_blog_def)
  show ?thesis
    using g a non_owner_forbidden[OF g a, of sample_input 200] by simp
qed

section \<open>Updates are not validated\<close>

lemma generateSlug_empty: "generateSlug [] = []"
  by (simp add: generateSlug_def toLowerCase_def trim_def)

text \<open>
  Claim C10: \<open>updateBlog\<close> does not check that title and content are non-empty. For every
  existing blog and its owner, an update with the empty title and the empty content succeeds
  and stores the empty title, the empty content, the empty slug and reading time 1, while
  \<open>createBlog\<close> rejects the same body with ValidationError.
\<close>

theorem updateBlog_accepts_empty:
  assumes "kv_get s (blog_key blogId) = Some (Blog b)" and "b_authorId b = callerId"
  shows "(\<exists>updated s'.
            updateBlog (Some callerId) blogId
                \<lparr>in_title = Some [], in_content = Some [], in_tags = ts, in_isDraft = d\<rparr> now s
              = (Inr updated, s')
            \<and> b_title updated = [] \<and> b_content updated = [] \<and> b_slug updated = []
            \<and> b_readingTime updated = 1
            \<and> kv_get s' (blog_key blogId) = Some (Blog updated))
       \<and> (in_title inp = Some [] \<or> in_content inp = Some []
            \<longrightarrow> createBlog (Some callerId) inp newId now s = (Inl ValidationError, s))"
proof -
  have "\<exists>updated s'.
            updateBlog (Some callerId) blogId
                \<lparr>in_title = Some [], in_content = Some [], in_tags = ts, in_isDraft = d\<rparr> now s
              = (Inr updated, s')
            \<and> b_title updated = [] \<and> b_content updated = [] \<and> b_slug updated = []
            \<and> b_readingTime updated = 1
            \<and> kv_get s' (blog_key blogId) = Some (Blog updated)"
    using assms published_key_neq_blog_key_same[of blogId]
    by (auto simp: updateBlog_def Let_def generateSlug_empty reading_time_empty
        kv_get_set kv_get_del)
  moreover have "in_title inp = Some [] \<or> in_content inp = Some []
      \<longrightarrow> createBlog (Some callerId) inp newId now s = (Inl ValidationError, s)"
    by (auto simp: createBlog_def split: option.splits)
  ultimately show ?thesis by blast
qed

theorem updateBlog_accepts_empty_witness:
  "kv_get created_store (blog_key ''b1'') = Some (Blog created_blog)
   \<and> b_authorId created_blog = ''alice''
   \<and> (\<exists>updated s'.
         updateBlog (Some ''alice'') ''b1'' empty_input 200 created_store = (Inr updated, s')
         \<and> b_title updated = [] \<and> b_content updated = [] \<and> b_slug updated = []
         \<and> b_readingTime updated = 1
         \<and> kv_get s' (blog_key ''b1'') = Some (Blog updated))
   \<and> in_title empty_input = Some []
   \<and> createBlog (Some ''alice'') empty_input ''b2'' 200 created_store
       = (Inl ValidationError, created_store)
   \<and> in_content (sample_input\<lparr>in_content := Some []\<rparr>) = Some []
   \<and> createBlog (Some ''alice'') (sample_input\<lparr>in_content := Some []\<rparr>) ''b2'' 200 created_store
       = (Inl ValidationError, created_store)"
proof -
  have g: "kv_get created_store (blog_key ''b1'') = Some (Blog created_blog)" by code_simp
  have a: "b_authorId created_blog = ''alice''" by (simp add: created_blog_def)
  have e: "in_title empty_input = Some []" by (simp add: empty_input_def)
  have c: "in_content (sample_input\<lparr>in_content := Some []\<rparr>) = Some []" by simp
  show ?thesis
    using g a e c
      updateBlog_accepts_empty[OF g a, of None None 200 empty_input "''b2''"]
      updateBlog_accepts_empty[OF g a, of None None 200 "sample_input\<lparr>in_content := Some []\<rparr>"
        "''b2''"]
    by (simp add: empty_input_def)
qed

section \<open>Cascading deletion\<close>

lemma set_kv_del: "set (kv_del s k) = {kv \<in> set s. fst kv \<noteq> k}"
  by (auto simp: kv_del_def AList.delete_eq)

lemma set_kv_set: "set (kv_set s k v) \<subseteq> set s \<union> {(k, v)}"
  unfolding kv_set_def by (induction s) auto

lemma set_fold_del:
  "set (fold (\<lambda>c st. kv_del st (f c)) cs st) = {kv \<in> set st. fst kv \<notin> f ` set cs}"
  by (induction cs arbitrary: st) (auto simp: set_kv_del)

lemma getByPrefix_Nil: "kv_getByPrefix s p = [] \<longleftrightarrow> (\<forall>kv \<in> set s. \<not> prefix p (fst kv))"
  by (auto simp: kv_getByPrefix_def filter_empty_conv)

lemma set_getByPrefix: "set (kv_getByPrefix s p) = snd ` {kv \<in> set s. prefix p (fst kv)}"
  by (auto simp: kv_getByPrefix_def)

lemma user_blogs_key_not_comment: "\<not> prefix (comment_prefix b) (user_blogs_key u)"
  by (simp add: comment_prefix_def user_blogs_key_def)

lemma user_blogs_key_not_comment_key: "user_blogs_key u \<noteq> comment_key b c"
  by (simp add: comment_key_def comment_prefix_def user_blogs_key_def)

lemma user_blogs_key_not_blog: "user_blogs_key u \<noteq> blog_key b" "user_blogs_key u \<noteq> published_key b"
  by (simp_all add: blog_key_def user_blogs_key_def published_key_def published_prefix_def)

lemma blog_keys_not_comment_key: "blog_key i \<noteq> comment_key b c" "published_key i \<noteq> comment_key b c"
  by (simp_all add: blog_key_def comment_key_def comment_prefix_def published_key_def published_prefix_def)

lemma cascade_empties:
  assumes keyed: "comments_keyed s blogId"
    and sub: "set s3 \<subseteq> set s \<union> {(user_blogs_key u, v)}"
  shows "kv_getByPrefix
           (fold (\<lambda>c st. kv_del st (comment_key blogId (template (id_field c))))
              (kv_getByPrefix s3 (comment_prefix blogId)) s3)
           (comment_prefix blogId) = []"
proof -
  let ?f = "\<lambda>c. comment_key blogId (template (id_field c))"
  let ?cs = "kv_getByPrefix s3 (comment_prefix blogId)"
  have "\<not> prefix (comment_prefix blogId) (fst kv)" if kv: "kv \<in> set (fold (\<lambda>c st. kv_del st (?f c)) ?cs s3)" for kv
  proof
    assume p: "prefix (comment_prefix blogId) (fst kv)"
    from kv have in3: "kv \<in> set s3" and nd: "fst kv \<notin> ?f ` set ?cs"
      by (auto simp: set_fold_del)
    have "kv \<noteq> (user_blogs_key u, v)" using p user_blogs_key_not_comment[of blogId u] by auto
    then have "kv \<in> set s" using in3 sub by auto
    then have "fst kv = ?f (snd kv)"
      using keyed p by (auto simp: comments_keyed_def list_all_iff)
    moreover have "snd kv \<in> set ?cs" using in3 p by (auto simp: set_getByPrefix)
    ultimately show False using nd by auto
  qed
  then show ?thesis by (simp add: getByPrefix_Nil)
qed

text \<open>
  Claim C8: for every existing blog with any number of comments, a successful \<open>deleteBlog\<close> by
  its owner removes the blog record, its index entry (present or not), the blog's id from the
  author's list and all comments under the blog id, so that \<open>listComments\<close> then returns the
  empty list.

  The deletion succeeds when the author's list is an array or absent, and it reaches every
  comment when the comments of the blog are keyed by their own ids. Both hold in the stores
  that the handlers build (\<open>side_keys_user_blogs\<close> and \<open>side_keys_comments_keyed\<close> in the
  section on well-formed stores).
\<close>

theorem deleteBlog_cascade:
  assumes ex: "kv_get s (blog_key blogId) = Some (Blog b)" and own: "b_authorId b = callerId"
    and ids: "user_blogs s callerId = Some ids"
    and keyed: "comments_keyed s blogId"
  shows "\<exists>s'. deleteBlog (Some callerId) blogId s = (Inr (), s')
           \<and> kv_get s' (blog_key blogId) = None
           \<and> kv_get s' (published_key blogId) = None
           \<and> user_blogs s' callerId = Some (filter (\<lambda>i. i \<noteq> blogId) ids)
           \<and> blogId \<notin> set (filter (\<lambda>i. i \<noteq> blogId) ids)
           \<and> kv_getByPrefix s' (comment_prefix blogId) = []
           \<and> listComments blogId s' = Inr []"
proof -
  let ?s2 = "kv_del (kv_del s (blog_key blogId)) (published_key blogId)"
  let ?s3 = "kv_set ?s2 (user_blogs_key callerId) (BlogIds (filter (\<lambda>i. i \<noteq> blogId) ids))"
  let ?s4 = "fold (\<lambda>c st. kv_del st (comment_key blogId (template (id_field c))))
               (kv_getByPrefix ?s3 (comment_prefix blogId)) ?s3"
  have ub: "user_blogs ?s2 callerId = Some ids"
    using ids user_blogs_key_not_blog[of callerId blogId] by (simp add: user_blogs_def kv_get_del)
  have run: "deleteBlog (Some callerId) blogId s = (Inr (), ?s4)"
    using ex own ub by (simp add: deleteBlog_def Let_def)
  have get: "\<And>k. kv_get ?s4 k =
      (if k \<in> (\<lambda>c. comment_key blogId (template (id_field c))) ` set (kv_getByPrefix ?s3 (comment_prefix blogId)) then None
       else if k = user_blogs_key callerId then Some (BlogIds (filter (\<lambda>i. i \<noteq> blogId) ids))
       else if k = published_key blogId \<or> k = blog_key blogId then None else kv_get s k)"
    by (auto simp: kv_get_fold_del kv_get_set kv_get_del)
  have g1: "kv_get ?s4 (blog_key blogId) = None" 
    using user_blogs_key_not_blog[of callerId blogId] by (auto simp: get)
  have g2: "kv_get ?s4 (published_key blogId) = None"
    using user_blogs_key_not_blog[of callerId blogId] by (auto simp: get)
  have g3: "user_blogs ?s4 callerId = Some (filter (\<lambda>i. i \<noteq> blogId) ids)"
    using user_blogs_key_not_comment_key[of callerId blogId] by (auto simp: user_blogs_def get)
  have sub: "set ?s3 \<subseteq> set s \<union> {(user_blogs_key callerId, BlogIds (filter (\<lambda>i. i \<noteq> blogId) ids))}"
    using set_kv_set[of ?s2] by (auto simp: set_kv_del)
  have g4: "kv_getByPrefix ?s4 (comment_prefix blogId) = []"
    using keyed sub by (rule cascade_empties)
  have g5: "listComments blogId ?s4 = Inr []"
    by (simp add: listComments_def g4)
  show ?thesis using run g1 g2 g3 g4 g5 by simp
qed

theorem deleteBlog_cascade_witness:
  "kv_get commented_store (blog_key ''b1'') = Some (Blog created_blog)
   \<and> b_authorId created_blog = ''alice''
   \<and> user_blogs commented_store ''alice'' = Some [''b1'']
   \<and> comments_keyed commented_store ''b1''
   \<and> length (kv_getByPrefix commented_store (comment_prefix ''b1'')) = 2
   \<and> (\<exists>s'. deleteBlog (Some ''alice'') ''b1'' commented_store = (Inr (), s')
           \<and> kv_get s' (blog_key ''b1'') = None
           \<and> kv_get s' (published_key ''b1'') = None
           \<and> user_blogs s' ''alice'' = Some []
           \<and> kv_getByPrefix s' (comment_prefix ''b1'') = []
           \<and> listComments ''b1'' s' = Inr [])"
proof -
  have g: "kv_get commented_store (blog_key ''b1'') = Some (Blog created_blog)" by code_simp
  have a: "b_authorId created_blog = ''alice''" by (simp add: created_blog_def)
  have u: "user_blogs commented_store ''alice'' = Some [''b1'']" by code_simp
  have k: "comments_keyed commented_store ''b1''" by code_simp
  have n: "length (kv_getByPrefix commented_store (comment_prefix ''b1'')) = 2" by code_simp
  show ?thesis
    using g a u k n deleteBlog_cascade[OF g a u k] by simp
qed

section \<open>Lookup by slug\<close>

lemma well_shaped_published:
  "prefix published_prefix k \<Longrightarrow>
   well_shaped k v \<longleftrightarrow> (\<exists>e. v = Published e \<and> colon_free (ix_id e))"
  by (cases v) (simp_all add: well_shaped_def)

lemma well_shaped_blog:
  "\<not> prefix published_prefix k \<Longrightarrow> prefix ''blog:'' k \<Longrightarrow>
   well_shaped k v \<longleftrightarrow> (\<exists>b. v = Blog b \<and> k = blog_key (b_id b) \<and> colon_free (b_id b))"
  by (cases v) (simp_all add: well_shaped_def)

lemma well_shaped_other: "\<not> prefix ''blog:'' k \<Longrightarrow> well_shaped k v"
  by (auto simp: well_shaped_def published_prefix_def prefix_def)

lemma typed_Cons:
  "blog_space_typed (kv # s) \<longleftrightarrow> well_shaped (fst kv) (snd kv) \<and> blog_space_typed s"
  by (simp add: blog_space_typed_def)

lemma typed_Nil: "blog_space_typed []"
  by (simp add: blog_space_typed_def)

lemma find_first_index_entry:
  "blog_space_typed s \<Longrightarrow>
   find (\<lambda>v. slug_field v = Some slug) (kv_getByPrefix s published_prefix)
     = map_option Published (first_index_entry s slug)"
proof (induction s)
  case Nil
  then show ?case by (simp add: kv_getByPrefix_def)
next
  case (Cons kv s)
  then have ih: "find (\<lambda>v. slug_field v = Some slug) (kv_getByPrefix s published_prefix)
     = map_option Published (first_index_entry s slug)"
    by (simp add: typed_Cons)
  have step: "kv_getByPrefix (kv # s) published_prefix =
      (if prefix published_prefix (fst kv) then snd kv # kv_getByPrefix s published_prefix
       else kv_getByPrefix s published_prefix)"
    by (simp add: kv_getByPrefix_def)
  show ?case
  proof (cases "prefix published_prefix (fst kv)")
    case True
    then obtain e where "snd kv = Published e"
      using Cons.prems by (auto simp: typed_Cons well_shaped_published)
    then show ?thesis using True ih by (simp add: step)
  next
    case False
    then show ?thesis using ih by (simp add: step split: kv_value.splits)
  qed
qed

lemma first_index_entry_Some:
  "blog_space_typed s \<Longrightarrow> first_index_entry s slug = Some e
   \<Longrightarrow> colon_free (ix_id e) \<and> ix_slug e = slug"
  by (induction s) (auto simp: typed_Cons well_shaped_published split: kv_value.splits if_splits)

lemma blog_key_not_published_prefix: "colon_free i \<Longrightarrow> \<not> prefix published_prefix (blog_key i)"
  by (auto simp: colon_free_def published_prefix_def blog_key_def prefix_def)

lemma typed_blog_key:
  assumes "blog_space_typed s" and "colon_free i" and "kv_get s (blog_key i) = Some v"
  shows "\<exists>b. v = Blog b \<and> b_id b = i"
proof -
  have "(blog_key i, v) \<in> set s" using assms(3) by (simp add: kv_get_def map_of_SomeD)
  then have "well_shaped (blog_key i) v"
    using assms(1) by (auto simp: blog_space_typed_def list_all_iff)
  then show ?thesis
    using blog_key_not_published_prefix[OF assms(2)] blog_key_prefix[of i]
    by (auto simp: well_shaped_blog blog_key_inj)
qed

lemma getBlogBySlug_none:
  assumes "blog_space_typed s" and "first_index_entry s slug = None"
  shows "getBlogBySlug slug s = (Inl NotFoundError, s)"
  using assms by (simp add: getBlogBySlug_def find_first_index_entry)

lemma getBlogBySlug_orphan:
  assumes "blog_space_typed s" and "first_index_entry s slug = Some e"
    and "kv_get s (blog_key (ix_id e)) = None"
  shows "getBlogBySlug slug s = (Inl NotFoundError, s)"
  using assms by (simp add: getBlogBySlug_def find_first_index_entry)

lemma getBlogBySlug_found:
  assumes "blog_space_typed s" and "first_index_entry s slug = Some e"
    and "kv_get s (blog_key (ix_id e)) = Some (Blog b)" and "slug \<noteq> []"
  shows "getBlogBySlug slug s =
           (Inr (b\<lparr>b_views := b_views b + 1\<rparr>,
                 author_of (kv_set s (blog_key (ix_id e)) (Blog (b\<lparr>b_views := b_views b + 1\<rparr>)))
                   (b_authorId b)),
            kv_set s (blog_key (ix_id e)) (Blog (b\<lparr>b_views := b_views b + 1\<rparr>)))"
  using assms first_index_entry_Some[OF assms(1,2)]
  by (simp add: getBlogBySlug_def find_first_index_entry Let_def colon_free_def)

lemma typed_kv_set:
  assumes "blog_space_typed s"
    and "well_shaped k v"
  shows "blog_space_typed (kv_set s k v)"
  using assms unfolding kv_set_def
  by (induction s) (auto simp: typed_Cons typed_Nil)

lemma first_index_entry_kv_set_other:
  "\<not> prefix published_prefix k \<Longrightarrow> first_index_entry (kv_set s k v) slug = first_index_entry s slug"
  unfolding kv_set_def
  by (induction s) (auto split: kv_value.splits)

lemma first_index_entry_kv_set_new:
  "first_index_entry s slug = None \<Longrightarrow> ix_slug e = slug \<Longrightarrow> prefix published_prefix k
   \<Longrightarrow> first_index_entry (kv_set s k (Published e)) slug = Some e"
  unfolding kv_set_def
  by (induction s) (auto split: kv_value.splits if_splits)


lemma getBlogBySlug_twice:
  assumes typed: "blog_space_typed s" and first: "first_index_entry s slug = Some e"
    and rec: "kv_get s (blog_key (ix_id e)) = Some (Blog b)" and slug: "slug \<noteq> []"
  shows "\<exists>a s2. getBlogBySlug slug
                   (kv_set s (blog_key (ix_id e)) (Blog (b\<lparr>b_views := b_views b + 1\<rparr>)))
                 = (Inr (b\<lparr>b_views := b_views b + 2\<rparr>, a), s2)"
proof -
  let ?v = "b\<lparr>b_views := b_views b + 1\<rparr>"
  let ?s1 = "kv_set s (blog_key (ix_id e)) (Blog ?v)"
  have cf: "colon_free (ix_id e)" using first_index_entry_Some[OF typed first] by simp
  have np: "\<not> prefix published_prefix (blog_key (ix_id e))"
    using cf by (rule blog_key_not_published_prefix)
  have "b_id b = ix_id e" using typed_blog_key[OF typed cf rec] by simp
  then have "well_shaped (blog_key (ix_id e)) (Blog ?v)"
    using np cf blog_key_prefix[of "ix_id e"] by (simp add: well_shaped_blog)
  then have t1: "blog_space_typed ?s1" using typed by (simp add: typed_kv_set)
  have f1: "first_index_entry ?s1 slug = Some e"
    using first np by (simp add: first_index_entry_kv_set_other)
  have r1: "kv_get ?s1 (blog_key (ix_id e)) = Some (Blog ?v)" by (simp add: kv_get_set)
  show ?thesis using getBlogBySlug_found[OF t1 f1 r1 slug] by simp
qed

lemma create_then_fetch:
  assumes typed: "blog_space_typed s" and cf: "colon_free blogId"
    and none: "first_index_entry s (b_slug blog) = None"
    and ok: "createBlog caller inp blogId now s = (Inr blog, s1)"
    and pub: "\<not> b_isDraft blog" and slug: "b_slug blog \<noteq> []"
  shows "b_views blog = 0
       \<and> (\<exists>a s2. getBlogBySlug (b_slug blog) s1 = (Inr (blog\<lparr>b_views := 1\<rparr>, a), s2))"
proof -
  from ok obtain userId title content userBlogs where
    blog: "blog = \<lparr>b_id = blogId, b_title = title, b_content = content,
                    b_slug = generateSlug title,
                    b_tags = (case in_tags inp of None \<Rightarrow> [] | Some ts \<Rightarrow> ts),
                    b_isDraft = (in_isDraft inp = Some True),
                    b_readingTime = calculateReadingTime content, b_authorId = userId,
                    b_createdAt = now, b_updatedAt = now, b_views = 0\<rparr>"
    and s1: "s1 = (let s2 = kv_set (kv_set s (blog_key blogId) (Blog blog))
                              (user_blogs_key userId) (BlogIds (userBlogs @ [blogId]))
                   in if in_isDraft inp \<noteq> Some True
                      then kv_set s2 (published_key blogId)
                             (Published \<lparr>ix_id = blogId, ix_title = title,
                                ix_tags = in_tags inp, ix_slug = generateSlug title,
                                ix_authorId = userId, ix_createdAt = now\<rparr>)
                      else s2)"
    by (auto simp: createBlog_def Let_def split: option.splits if_splits)
  let ?e = "\<lparr>ix_id = blogId, ix_title = title, ix_tags = in_tags inp,
             ix_slug = generateSlug title, ix_authorId = userId, ix_createdAt = now\<rparr>"
  let ?s2 = "kv_set (kv_set s (blog_key blogId) (Blog blog))
               (user_blogs_key userId) (BlogIds (userBlogs @ [blogId]))"
  have draft: "in_isDraft inp \<noteq> Some True" using pub by (simp add: blog)
  have s1': "s1 = kv_set ?s2 (published_key blogId) (Published ?e)"
    using draft by (simp add: s1 Let_def)
  have np: "\<not> prefix published_prefix (blog_key blogId)"
    using cf by (rule blog_key_not_published_prefix)
  have nu: "\<not> prefix published_prefix (user_blogs_key userId)"
    by (simp add: published_prefix_def user_blogs_key_def)
  have pp: "prefix published_prefix (published_key blogId)"
    by (simp add: published_key_def)
  have w1: "well_shaped (blog_key blogId) (Blog blog)"
    using np blog_key_prefix[of blogId] cf by (simp add: well_shaped_blog blog)
  have w2: "well_shaped (user_blogs_key userId) (BlogIds (userBlogs @ [blogId]))"
    using user_blogs_key_prefix[of userId] by (rule well_shaped_other)
  have w3: "well_shaped (published_key blogId) (Published ?e)"
    using pp cf by (simp add: well_shaped_published)
  have t1: "blog_space_typed s1"
    unfolding s1' using typed w1 w2 w3 by (simp add: typed_kv_set)
  have "first_index_entry ?s2 (generateSlug title) = None"
    using none np nu by (simp add: first_index_entry_kv_set_other blog)
  then have f1: "first_index_entry s1 (b_slug blog) = Some ?e"
    unfolding s1' using pp by (simp add: first_index_entry_kv_set_new blog)
  have r1: "kv_get s1 (blog_key (ix_id ?e)) = Some (Blog blog)"
    using published_key_neq_blog_key_same[of blogId] user_blogs_key_not_blog[of userId blogId]
    by (auto simp: s1' kv_get_set)
  show ?thesis using getBlogBySlug_found[OF t1 f1 r1 slug] by (simp add: blog)
qed

text \<open>
  Claim C2, amended: for every slug that is not empty, \<open>getBlogBySlug\<close> returns the blog of
  the first index entry with the slug in scan order; it fails with NotFoundError exactly when
  no entry matches or the record of the matching entry is missing; every successful fetch adds
  exactly 1 to the stored view counter, also when it is repeated, and the first fetch after the
  creation of a published blog whose slug is not empty takes the counter from 0 to 1.

  On a store whose blog keys hold what the handlers write: the failure is NotFoundError and
  nothing else, exactly in the two cases named, and it leaves the store alone; a hit returns
  the record with one more view and stores it, and the next fetch returns one more again; a
  blog published under a slug that is not empty and that no entry has yet is created with 0
  views and fetched with 1.
\<close>

theorem getBlogBySlug_first_entry:
  assumes "blog_space_typed s" and "slug \<noteq> []"
  shows "((fst (getBlogBySlug slug s) = Inl NotFoundError)
            = (first_index_entry s slug = None
               \<or> (\<exists>e. first_index_entry s slug = Some e \<and> kv_get s (blog_key (ix_id e)) = None)))
       \<and> (\<forall>err. fst (getBlogBySlug slug s) = Inl err
             \<longrightarrow> err = NotFoundError \<and> snd (getBlogBySlug slug s) = s)
       \<and> (\<forall>e b. first_index_entry s slug = Some e \<and> kv_get s (blog_key (ix_id e)) = Some (Blog b)
             \<longrightarrow> (let viewed = b\<lparr>b_views := b_views b + 1\<rparr>;
                      s1 = kv_set s (blog_key (ix_id e)) (Blog viewed)
                  in getBlogBySlug slug s = (Inr (viewed, author_of s1 (b_authorId b)), s1)
                     \<and> kv_get s1 (blog_key (ix_id e)) = Some (Blog viewed)
                     \<and> (\<exists>a s2. getBlogBySlug slug s1
                                  = (Inr (b\<lparr>b_views := b_views b + 2\<rparr>, a), s2))))
       \<and> (colon_free blogId \<and> first_index_entry s (b_slug blog) = None
            \<and> createBlog caller inp blogId now s = (Inr blog, s') \<and> \<not> b_isDraft blog
            \<and> b_slug blog \<noteq> []
          \<longrightarrow> b_views blog = 0
              \<and> (\<exists>a s2. getBlogBySlug (b_slug blog) s' = (Inr (blog\<lparr>b_views := 1\<rparr>, a), s2)))"
proof -
  note typed = assms(1)
  note slug = assms(2)
  have cases: "first_index_entry s slug = None
      \<or> (\<exists>e. first_index_entry s slug = Some e \<and> kv_get s (blog_key (ix_id e)) = None)
      \<or> (\<exists>e b. first_index_entry s slug = Some e \<and> kv_get s (blog_key (ix_id e)) = Some (Blog b))"
  proof (cases "first_index_entry s slug")
    case None
    then show ?thesis by simp
  next
    case (Some e)
    then have "colon_free (ix_id e)" using first_index_entry_Some[OF typed] by simp
    then show ?thesis using Some typed_blog_key[OF typed, of "ix_id e"]
      by (cases "kv_get s (blog_key (ix_id e))") auto
  qed
  have found: "getBlogBySlug slug s =
           (Inr (b\<lparr>b_views := b_views b + 1\<rparr>,
                 author_of (kv_set s (blog_key (ix_id e)) (Blog (b\<lparr>b_views := b_views b + 1\<rparr>)))
                   (b_authorId b)),
            kv_set s (blog_key (ix_id e)) (Blog (b\<lparr>b_views := b_views b + 1\<rparr>)))"
    if "first_index_entry s slug = Some e" "kv_get s (blog_key (ix_id e)) = Some (Blog b)" for e b
    using getBlogBySlug_found[OF typed that slug] .
  have twice: "\<exists>a s2. getBlogBySlug slug
                   (kv_set s (blog_key (ix_id e)) (Blog (b\<lparr>b_views := b_views b + 1\<rparr>)))
                 = (Inr (b\<lparr>b_views := b_views b + 2\<rparr>, a), s2)"
    if "first_index_entry s slug = Some e" "kv_get s (blog_key (ix_id e)) = Some (Blog b)" for e b
    using getBlogBySlug_twice[OF typed that slug] .
  have A: "(fst (getBlogBySlug slug s) = Inl NotFoundError)
            = (first_index_entry s slug = None
               \<or> (\<exists>e. first_index_entry s slug = Some e \<and> kv_get s (blog_key (ix_id e)) = None))"
    using cases getBlogBySlug_none[OF typed, of slug] getBlogBySlug_orphan[OF typed, of slug]
      found
    by auto
  have B: "\<forall>err. fst (getBlogBySlug slug s) = Inl err
             \<longrightarrow> err = NotFoundError \<and> snd (getBlogBySlug slug s) = s"
    using cases getBlogBySlug_none[OF typed, of slug] getBlogBySlug_orphan[OF typed, of slug]
      found
    by auto
  have C: "\<forall>e b. first_index_entry s slug = Some e \<and> kv_get s (blog_key (ix_id e)) = Some (Blog b)
             \<longrightarrow> (let viewed = b\<lparr>b_views := b_views b + 1\<rparr>;
                      s1 = kv_set s (blog_key (ix_id e)) (Blog viewed)
                  in getBlogBySlug slug s = (Inr (viewed, author_of s1 (b_authorId b)), s1)
                     \<and> kv_get s1 (blog_key (ix_id e)) = Some (Blog viewed)
                     \<and> (\<exists>a s2. getBlogBySlug slug s1
                                  = (Inr (b\<lparr>b_views := b_views b + 2\<rparr>, a), s2)))"
    using found twice
    by (simp add: Let_def kv_get_set)
  have D: "colon_free blogId \<and> first_index_entry s (b_slug blog) = None
            \<and> createBlog caller inp blogId now s = (Inr blog, s') \<and> \<not> b_isDraft blog
            \<and> b_slug blog \<noteq> []
          \<longrightarrow> b_views blog = 0
              \<and> (\<exists>a s2. getBlogBySlug (b_slug blog) s' = (Inr (blog\<lparr>b_views := 1\<rparr>, a), s2))"
    using create_then_fetch[OF typed, of blogId blog caller inp now s'] by blast
  show ?thesis using A B C D by blast
qed

theorem getBlogBySlug_first_entry_witness:
  "blog_space_typed created_store
   \<and> first_index_entry created_store ''hello-world'' = Some created_entry
   \<and> kv_get created_store (blog_key (ix_id created_entry)) = Some (Blog created_blog)
   \<and> getBlogBySlug ''hello-world'' created_store
       = (Inr (created_blog\<lparr>b_views := 1\<rparr>, None),
          kv_set created_store (blog_key ''b1'') (Blog (created_blog\<lparr>b_views := 1\<rparr>)))
   \<and> (\<exists>a s2. getBlogBySlug ''hello-world''
                  (kv_set created_store (blog_key ''b1'') (Blog (created_blog\<lparr>b_views := 1\<rparr>)))
                = (Inr (created_blog\<lparr>b_views := 2\<rparr>, a), s2))
   \<and> first_index_entry created_store ''no-such-slug'' = None
   \<and> getBlogBySlug ''no-such-slug'' created_store = (Inl NotFoundError, created_store)
   \<and> blog_space_typed [] \<and> colon_free ''b1'' \<and> b_slug created_blog \<noteq> []
   \<and> first_index_entry [] (b_slug created_blog) = None
   \<and> createBlog (Some ''alice'') sample_input ''b1'' 100 [] = (Inr created_blog, created_store)
   \<and> \<not> b_isDraft created_blog \<and> b_views created_blog = 0
   \<and> (\<exists>a s2. getBlogBySlug (b_slug created_blog) created_store
                = (Inr (created_blog\<lparr>b_views := 1\<rparr>, a), s2))"
proof -
  have t: "blog_space_typed created_store" by code_simp
  have f: "first_index_entry created_store ''hello-world'' = Some created_entry" by code_simp
  have g: "kv_get created_store (blog_key (ix_id created_entry)) = Some (Blog created_blog)"
    by code_simp
  have i: "ix_id created_entry = ''b1''" by (simp add: created_entry_def)
  have v: "b_views created_blog = 0" "b_authorId created_blog = ''alice''"
    "\<not> b_isDraft created_blog" "b_slug created_blog \<noteq> []"
    by (simp_all add: created_blog_def)
  have ne: "''hello-world'' \<noteq> []" "''no-such-slug'' \<noteq> []"
    by simp_all
  have au: "author_of (kv_set created_store (blog_key ''b1'')
                (Blog (created_blog\<lparr>b_views := 1\<rparr>))) ''alice'' = None"
    by code_simp
  have n: "first_index_entry created_store ''no-such-slug'' = None" by code_simp
  have t0: "blog_space_typed []" by (rule typed_Nil)
  have c: "colon_free ''b1''" by (simp add: colon_free_def)
  have cr: "createBlog (Some ''alice'') sample_input ''b1'' 100 []
      = (Inr created_blog, created_store)"
    by code_simp
  note hit = getBlogBySlug_first_entry[OF t ne(1)]
  note miss = getBlogBySlug_first_entry[OF t ne(2)]
  note fresh = getBlogBySlug_first_entry[OF t0 ne(1), where blogId="''b1''" and blog=created_blog
      and caller="Some ''alice''" and inp=sample_input and now=100 and s'=created_store]
  have e1: "created_blog\<lparr>b_views := b_views created_blog + 1\<rparr> = created_blog\<lparr>b_views := 1\<rparr>"
    and e2: "created_blog\<lparr>b_views := b_views created_blog + 2\<rparr> = created_blog\<lparr>b_views := 2\<rparr>"
    by (simp_all add: created_blog_def)
  from hit f g have "let viewed = created_blog\<lparr>b_views := b_views created_blog + 1\<rparr>;
        s1 = kv_set created_store (blog_key (ix_id created_entry)) (Blog viewed)
      in getBlogBySlug ''hello-world'' created_store
           = (Inr (viewed, author_of s1 (b_authorId created_blog)), s1)
         \<and> kv_get s1 (blog_key (ix_id created_entry)) = Some (Blog viewed)
         \<and> (\<exists>a s2. getBlogBySlug ''hello-world'' s1
                      = (Inr (created_blog\<lparr>b_views := b_views created_blog + 2\<rparr>, a), s2))"
    by blast
  then have h1: "getBlogBySlug ''hello-world'' created_store
       = (Inr (created_blog\<lparr>b_views := 1\<rparr>, None),
          kv_set created_store (blog_key ''b1'') (Blog (created_blog\<lparr>b_views := 1\<rparr>)))"
    and h2: "\<exists>a s2. getBlogBySlug ''hello-world''
                  (kv_set created_store (blog_key ''b1'') (Blog (created_blog\<lparr>b_views := 1\<rparr>)))
                = (Inr (created_blog\<lparr>b_views := 2\<rparr>, a), s2)"
    by (simp_all only: Let_def i e1 e2 v(2) au)
  have m: "getBlogBySlug ''no-such-slug'' created_store = (Inl NotFoundError, created_store)"
    using miss n by (metis prod.collapse)
  have h3: "\<exists>a s2. getBlogBySlug (b_slug created_blog) created_store
                = (Inr (created_blog\<lparr>b_views := 1\<rparr>, a), s2)"
    using fresh c cr v by simp
  show ?thesis using t f g h1 h2 n m t0 c cr v h3 by simp
qed

text \<open>
  Claim C2 as stated fails on the code for the empty slug. A title without a letter, digit,
  blank or hyphen gets the empty slug, and the blog is published under it: the index has an
  entry with this slug and the record of the entry exists. But the route \<open>/blogs/:slug\<close> does
  not match the path \<open>/blogs/\<close>, so a fetch by this slug is answered with status 404 and the
  view counter stays at 0.
\<close>

theorem getBlogBySlug_empty_slug_counterexample:
  "createBlog (Some ''alice'') marks_input ''b1'' 100 [] = (Inr marks_blog, marks_store)
   \<and> b_slug marks_blog = [] \<and> \<not> b_isDraft marks_blog \<and> b_views marks_blog = 0
   \<and> first_index_entry marks_store (b_slug marks_blog) = Some marks_entry
   \<and> kv_get marks_store (blog_key (ix_id marks_entry)) = Some (Blog marks_blog)
   \<and> getBlogBySlug (b_slug marks_blog) marks_store = (Inl NotFoundError, marks_store)"
  by code_simp

section \<open>Profile updates\<close>

lemma trim_or_blank: "blank field \<Longrightarrow> trim_or field d = d"
  by (auto simp: blank_def trim_or_def split: option.splits)

lemma map_of_spread:
  "map_of (spread a b) k = (case map_of b k of None \<Rightarrow> map_of a k | Some v \<Rightarrow> Some v)"
  by (simp add: spread_def AList.merge_conv' map_add_def)

text \<open>
  Claim C9: for every existing user who updates the own profile, \<open>updateProfile\<close> sets each of
  bio, location, phone, website and avatar to the empty string when the patch omits the field
  or gives it blank, whatever was stored before; only email falls back to the stored value; and
  the preferences keep every key that the patch does not mention.
\<close>

theorem updateProfile_resets_omitted:
  assumes "kv_get s (user_key userId) = Some (User existing)"
    and "p_name patch = Some name" and "trim name \<noteq> []"
  shows "\<exists>updated s'.
           updateProfile (Some userId) userId patch now s = (Inr updated, s')
         \<and> kv_get s' (user_key userId) = Some (User updated)
         \<and> (blank (p_bio patch) \<longrightarrow> usr_bio updated = [])
         \<and> (blank (p_location patch) \<longrightarrow> usr_location updated = [])
         \<and> (blank (p_phone patch) \<longrightarrow> usr_phone updated = [])
         \<and> (blank (p_website patch) \<longrightarrow> usr_website updated = [])
         \<and> (blank (p_avatar patch) \<longrightarrow> usr_avatar updated = [])
         \<and> (blank (p_email patch) \<longrightarrow> usr_email updated = usr_email existing)
         \<and> (\<forall>k. map_of (or_else (p_preferences patch) []) k = None
                \<longrightarrow> map_of (usr_preferences updated) k = map_of (usr_preferences existing) k)
         \<and> (\<forall>k v. map_of (or_else (p_preferences patch) []) k = Some v
                \<longrightarrow> map_of (usr_preferences updated) k = Some v)"
  using assms
  by (simp add: updateProfile_def Let_def kv_get_set trim_or_blank map_of_spread)

theorem updateProfile_resets_omitted_witness:
  "kv_get [(''user:alice'', User alice_profile)] (user_key ''alice'') = Some (User alice_profile)
   \<and> p_name name_patch = Some '' Alice B '' \<and> trim '' Alice B '' \<noteq> []
   \<and> blank (p_bio name_patch) \<and> blank (p_location name_patch) \<and> blank (p_phone name_patch)
   \<and> blank (p_website name_patch) \<and> blank (p_avatar name_patch) \<and> blank (p_email name_patch)
   \<and> map_of (or_else (p_preferences name_patch) []) ''showPhone'' = None
   \<and> map_of (or_else (p_preferences name_patch) []) ''showEmail'' = Some True
   \<and> usr_bio alice_profile = ''Writer'' \<and> usr_phone alice_profile = ''12345''
   \<and> updateProfile (Some ''alice'') ''alice'' name_patch 500 [(''user:alice'', User alice_profile)]
       = (Inr renamed_profile, [(''user:alice'', User renamed_profile)])
   \<and> usr_bio renamed_profile = [] \<and> usr_phone renamed_profile = []
   \<and> usr_email renamed_profile = usr_email alice_profile
   \<and> map_of (usr_preferences renamed_profile) ''showPhone''
       = map_of (usr_preferences alice_profile) ''showPhone''
   \<and> map_of (usr_preferences renamed_profile) ''showEmail'' = Some True"
proof -
  have g: "kv_get [(''user:alice'', User alice_profile)] (user_key ''alice'')
      = Some (User alice_profile)"
    by code_simp
  have n: "p_name name_patch = Some '' Alice B ''" by (simp add: name_patch_def)
  have t: "trim '' Alice B '' \<noteq> []" by code_simp
  have b: "blank (p_bio name_patch)" "blank (p_location name_patch)"
    "blank (p_phone name_patch)" "blank (p_website name_patch)" "blank (p_avatar name_patch)"
    "blank (p_email name_patch)"
    by code_simp+
  have p: "map_of (or_else (p_preferences name_patch) []) ''showPhone'' = None"
    "map_of (or_else (p_preferences name_patch) []) ''showEmail'' = Some True"
    by code_simp+
  have r: "updateProfile (Some ''alice'') ''alice'' name_patch 500
        [(''user:alice'', User alice_profile)]
      = (Inr renamed_profile, [(''user:alice'', User renamed_profile)])"
    by code_simp
  have o: "usr_bio alice_profile = ''Writer''" "usr_phone alice_profile = ''12345''"
    by (simp_all add: alice_profile_def)
  from updateProfile_resets_omitted[OF g n t, of 500] r
  have "usr_bio renamed_profile = [] \<and> usr_phone renamed_profile = []
      \<and> usr_email renamed_profile = usr_email alice_profile
      \<and> map_of (usr_preferences renamed_profile) ''showPhone''
          = map_of (usr_preferences alice_profile) ''showPhone''
      \<and> map_of (usr_preferences renamed_profile) ''showEmail'' = Some True"
    using b p by auto
  then show ?thesis using g n t b p o r by simp
qed

section \<open>Numbers\<close>

lemma bit_length_lower: "0 < n \<Longrightarrow> 2 ^ (bit_length n - 1) \<le> n"
proof (induction n rule: bit_length.induct)
  case (1 n)
  show ?case
  proof (cases "n = 1")
    case True
    then show ?thesis by (simp add: bit_length.simps)
  next
    case False
    then have pos: "0 < n div 2" using 1(2) by simp
    then have ih: "2 ^ (bit_length (n div 2) - 1) \<le> n div 2"
      using 1 by simp
    have step: "bit_length n = Suc (bit_length (n div 2))"
      using 1(2) by (simp add: bit_length.simps)
    obtain k where k: "bit_length (n div 2) = Suc k"
      using pos by (auto simp: bit_length.simps[of "n div 2"])
    have "(2::int) ^ (bit_length n - 1) = 2 * 2 ^ (bit_length (n div 2) - 1)"
      by (simp add: step k)
    also have "\<dots> \<le> 2 * (n div 2)" using ih by simp
    also have "\<dots> \<le> n" by simp
    finally show ?thesis .
  qed
qed

lemma bit_length_upper: "n < 2 ^ bit_length n"
proof (induction n rule: bit_length.induct)
  case (1 n)
  show ?case
  proof (cases "n \<le> 0")
    case True
    then show ?thesis by (simp add: bit_length.simps)
  next
    case False
    then have ih: "n div 2 < 2 ^ bit_length (n div 2)" using 1 by simp
    have step: "bit_length n = Suc (bit_length (n div 2))"
      using False by (simp add: bit_length.simps)
    have "n < 2 * (n div 2 + 1)" by simp
    also have "\<dots> \<le> 2 * 2 ^ bit_length (n div 2)" using ih by simp
    finally show ?thesis by (simp add: step)
  qed
qed

lemma to_double_exact: "abs n < 2 ^ 53 \<Longrightarrow> to_double n = Num n"
  by (simp add: to_double_def)

lemma to_double_rounded:
  assumes "2 ^ 53 \<le> n"
  shows "\<exists>m. to_double n = (if 2 ^ 1024 \<le> m then Infinity else Num m)
            \<and> 2 ^ (bit_length n - 1) \<le> m \<and> 53 < bit_length n"
proof -
  define e where "e = bit_length n - 53"
  define q where "q = n div 2 ^ e"
  define r where "r = n mod 2 ^ e"
  define q' where "q' = (if 2 ^ e < 2 * r \<or> (2 * r = 2 ^ e \<and> odd q) then q + 1 else q)"
  have npos: "0 < n" using assms by (smt (verit) zero_less_power)
  have abs: "abs n = n" using npos by simp
  have "(2::int) ^ 53 < 2 ^ bit_length n"
    using assms bit_length_upper[of n] by (rule order_le_less_trans)
  then have long: "53 < bit_length n" by (simp only: power_strict_increasing_iff one_less_numeral_iff semiring_norm)
  then have len: "bit_length n - 1 = 52 + e" by (simp add: e_def)
  have "(2::int) ^ 52 * 2 ^ e \<le> n"
    using bit_length_lower[OF npos] by (simp only: len power_add)
  then have "((2::int) ^ 52 * 2 ^ e) div 2 ^ e \<le> n div 2 ^ e"
    by (intro zdiv_mono1) simp_all
  then have "(2::int) ^ 52 \<le> q" unfolding q_def by simp
  moreover have "q \<le> q'" by (simp add: q'_def)
  ultimately have "(2::int) ^ 52 \<le> q'" by (rule order_trans)
  then have "(2::int) ^ 52 * 2 ^ e \<le> q' * 2 ^ e" by (intro mult_right_mono) simp_all
  then have low: "2 ^ (bit_length n - 1) \<le> q' * 2 ^ e" by (simp only: len power_add)
  have "to_double n = (if 2 ^ 1024 \<le> q' * 2 ^ e then Infinity else Num (q' * 2 ^ e))"
    unfolding to_double_def Let_def abs q'_def q_def r_def e_def
    using assms npos by simp
  then show ?thesis using low long by blast
qed

lemma to_double_beyond:
  assumes "2 ^ 53 \<le> n"
  shows "beyond_exact (to_double n)"
proof -
  from to_double_rounded[OF assms] obtain m where
    m: "to_double n = (if 2 ^ 1024 \<le> m then Infinity else Num m)"
    and low: "2 ^ (bit_length n - 1) \<le> m" and long: "53 < bit_length n"
    by blast
  have "(2::int) ^ 53 \<le> 2 ^ (bit_length n - 1)"
    using long by (intro power_increasing) simp_all
  then have "2 ^ 53 \<le> m" using low by (rule order_trans)
  then show ?thesis by (simp add: m beyond_exact_def)
qed

lemma to_double_overflow:
  assumes "2 ^ 1024 \<le> n"
  shows "to_double n = Infinity"
proof -
  have "(2::int) ^ 53 \<le> 2 ^ 1024" by (intro power_increasing) simp_all
  then have "2 ^ 53 \<le> n" using assms by (rule order_trans)
  from to_double_rounded[OF this] obtain m where
    m: "to_double n = (if 2 ^ 1024 \<le> m then Infinity else Num m)"
    and low: "2 ^ (bit_length n - 1) \<le> m"
    by blast
  have "(2::int) ^ 1024 < 2 ^ bit_length n"
    using assms bit_length_upper[of n] by (rule order_le_less_trans)
  then have "1024 < bit_length n"
    by (simp only: power_strict_increasing_iff one_less_numeral_iff semiring_norm)
  then have "(2::int) ^ 1024 \<le> 2 ^ (bit_length n - 1)"
    by (intro power_increasing) simp_all
  then have "2 ^ 1024 \<le> m" using low by (rule order_trans)
  then show ?thesis by (simp add: m)
qed

lemma digits_zero:
  "foldl (\<lambda>acc c. acc * 10 + int (digit_value c)) a (replicate n CHR ''0'') = a * 10 ^ n"
  by (induction n arbitrary: a) (simp_all add: digit_value_def code_def)


lemma parseInt_one_zeros: "parseInt (CHR ''1'' # replicate n CHR ''0'') = to_double (10 ^ n)"
proof -
  have d: "digit_value CHR ''1'' = 1" by (simp add: digit_value_def code_def)
  have z: "digit_value CHR ''0'' = 0" by (simp add: digit_value_def code_def)
  have s: "\<not> is_space CHR ''1''" by (simp add: is_space_def code_def)
  show ?thesis
    unfolding parseInt_def
    by (simp add: Let_def s d z digits_zero)
qed

lemma parseInt_huge_limit: "parseInt huge_limit = Infinity"
proof -
  have "parseInt huge_limit = to_double (10 ^ 309)"
    unfolding huge_limit_def by (rule parseInt_one_zeros)
  moreover have "(2::int) ^ 1024 \<le> 10 ^ 309" by simp
  ultimately show ?thesis by (simp only: to_double_overflow)
qed

lemma beyond_exact_index:
  "beyond_exact n \<Longrightarrow> int len < 2 ^ 53 \<Longrightarrow> relative_index len n = int len"
  by (cases n) (simp_all add: beyond_exact_def relative_index_def)

lemma js_slice_beyond:
  assumes "beyond_exact start" and "int (length xs) < 2 ^ 53"
  shows "js_slice xs start fin = []"
  using beyond_exact_index[OF assms] by (simp add: js_slice_def Let_def)

lemma js_mul_beyond:
  assumes "beyond_exact a" and "1 \<le> l"
  shows "beyond_exact (js_mul a (Num l))"
proof (cases a)
  case (Num m)
  then have m: "2 ^ 53 \<le> m" using assms(1) by (simp add: beyond_exact_def)
  have "m \<le> m * l" using mult_left_mono[of 1 l m] assms(2) m by simp
  with m have "2 ^ 53 \<le> m * l" by (rule order_trans)
  then show ?thesis using Num by (simp add: to_double_beyond)
next
  case Infinity
  then show ?thesis using assms(2) by (simp add: signed_infinity_def beyond_exact_def)
qed (use assms(1) in \<open>simp_all add: beyond_exact_def\<close>)

lemma js_slice_exact:
  assumes "0 \<le> start" and "0 \<le> l"
  shows "js_slice xs (Num start) (Num (start + l)) = take (nat l) (drop (nat start) xs)"
proof (cases "int (length xs) \<le> start")
  case True
  then have "drop (nat start) xs = []" by simp
  moreover have "js_slice xs (Num start) (Num (start + l)) = []"
    using True assms by (simp add: js_slice_def relative_index_def Let_def min_def)
  ultimately show ?thesis by simp
next
  case False
  have len: "length (drop (nat start) xs) = nat (int (length xs) - start)"
    using assms by simp
  have "js_slice xs (Num start) (Num (start + l))
      = take (nat (min (start + l) (int (length xs)) - start)) (drop (nat start) xs)"
    using False assms by (simp add: js_slice_def relative_index_def Let_def min_def)
  also have "nat (min (start + l) (int (length xs)) - start)
      = min (nat l) (nat (int (length xs) - start))"
    using False assms by arith
  also have "take (min (nat l) (nat (int (length xs) - start))) (drop (nat start) xs)
      = take (min (nat l) (length (drop (nat start) xs))) (drop (nat start) xs)"
    by (simp only: len)
  also have "\<dots> = take (nat l) (drop (nat start) xs)"
    by (simp add: min_def)
  finally show ?thesis .
qed

lemma js_slice_to_end:
  assumes "0 \<le> start" and "beyond_exact fin" and "int (length xs) < 2 ^ 53"
  shows "js_slice xs (Num start) fin = drop (nat start) xs"
proof -
  have f: "relative_index (length xs) fin = int (length xs)"
    using assms(2,3) by (rule beyond_exact_index)
  have k: "relative_index (length xs) (Num start) = min start (int (length xs))"
    using assms(1) by (simp add: relative_index_def)
  have "length (drop (nat start) xs) \<le> nat (int (length xs) - min start (int (length xs)))"
    using assms(1) by (auto simp: min_def nat_diff_distrib)
  then have "take (nat (int (length xs) - min start (int (length xs)))) (drop (nat start) xs)
      = drop (nat start) xs"
    by (rule take_all)
  moreover have "drop (nat (min start (int (length xs)))) xs = drop (nat start) xs"
    using assms(1) by (simp add: min_def)
  ultimately show ?thesis by (simp add: js_slice_def Let_def f k)
qed

lemma page_slice:
  assumes p: "1 \<le> p" and l: "1 \<le> l" and len: "int (length xs) < 2 ^ 53"
  shows "js_slice xs (js_mul (js_sub (Num p) (Num 1)) (Num l))
           (js_add (js_mul (js_sub (Num p) (Num 1)) (Num l)) (Num l))
         = take (nat l) (drop (nat ((p - 1) * l)) xs)"
proof -
  have sub: "js_sub (Num p) (Num 1) = to_double (p - 1)"
    by (simp add: js_sub_def)
  have nonneg: "0 \<le> (p - 1) * l" using p l by simp
  have grow: "p - 1 \<le> (p - 1) * l"
    using p l mult_left_mono[of 1 l "p - 1"] by simp
  show ?thesis
  proof (cases "(p - 1) * l < 2 ^ 53")
    case True
    then have "abs (p - 1) < 2 ^ 53" using grow p by simp
    then have start: "js_mul (js_sub (Num p) (Num 1)) (Num l) = Num ((p - 1) * l)"
      using True nonneg by (simp add: sub to_double_exact)
    show ?thesis
    proof (cases "(p - 1) * l + l < 2 ^ 53")
      case True
      then have "js_add (Num ((p - 1) * l)) (Num l) = Num ((p - 1) * l + l)"
        using nonneg l by (simp add: to_double_exact)
      then show ?thesis
        using nonneg l by (simp only: start) (simp add: js_slice_exact)
    next
      case False
      then have "beyond_exact (js_add (Num ((p - 1) * l)) (Num l))"
        by (simp add: to_double_beyond)
      then have "js_slice xs (Num ((p - 1) * l)) (js_add (Num ((p - 1) * l)) (Num l))
          = drop (nat ((p - 1) * l)) xs"
        using nonneg len by (intro js_slice_to_end) simp_all
      moreover have "length (drop (nat ((p - 1) * l)) xs) \<le> nat l"
        using False len nonneg by simp
      ultimately show ?thesis by (simp only: start take_all)
    qed
  next
    case False
    have "beyond_exact (js_mul (js_sub (Num p) (Num 1)) (Num l))"
    proof (cases "p - 1 < 2 ^ 53")
      case True
      then have "to_double (p - 1) = Num (p - 1)" using p by (simp add: to_double_exact)
      then show ?thesis using False by (simp add: sub to_double_beyond)
    next
      case False
      then have "beyond_exact (to_double (p - 1))" by (simp add: to_double_beyond)
      then show ?thesis unfolding sub using l by (rule js_mul_beyond)
    qed
    then have "js_slice xs (js_mul (js_sub (Num p) (Num 1)) (Num l))
           (js_add (js_mul (js_sub (Num p) (Num 1)) (Num l)) (Num l)) = []"
      using len by (rule js_slice_beyond)
    moreover have "drop (nat ((p - 1) * l)) xs = []"
      using False len by simp
    ultimately show ?thesis by simp
  qed
qed

section \<open>Listing published blogs\<close>

lemma scanned_published:
  assumes "blog_space_typed s" and "v \<in> set (kv_getByPrefix s published_prefix)"
  shows "\<exists>e. v = Published e \<and> colon_free (ix_id e)"
proof -
  from assms(2) obtain k where "(k, v) \<in> set s" and "prefix published_prefix k"
    by (auto simp: kv_getByPrefix_def)
  then show ?thesis
    using assms(1) by (auto simp: blog_space_typed_def list_all_iff well_shaped_published)
qed

lemma collect_ids_typed:
  assumes "blog_space_typed s"
    and "\<forall>v \<in> set vs. \<exists>e. v = Published e \<and> colon_free (ix_id e)"
  shows "\<exists>ids. collect_ids s search tag vs = Inr ids
           \<and> set ids = {ix_id e | e. Published e \<in> set vs
                          \<and> (\<exists>b. kv_get s (blog_key (ix_id e)) = Some (Blog b)
                                 \<and> search_filter search b \<and> tag_filter tag b)}
           \<and> (\<forall>i \<in> set ids. colon_free i)"
  using assms(2)
proof (induction vs)
  case Nil
  then show ?case by simp
next
  case (Cons v vs)
  then obtain e where v: "v = Published e" and cf: "colon_free (ix_id e)" by auto
  from Cons obtain ids where ih: "collect_ids s search tag vs = Inr ids"
    "set ids = {ix_id e | e. Published e \<in> set vs
                          \<and> (\<exists>b. kv_get s (blog_key (ix_id e)) = Some (Blog b)
                                 \<and> search_filter search b \<and> tag_filter tag b)}"
    "\<forall>i \<in> set ids. colon_free i"
    by auto
  show ?case
  proof (cases "kv_get s (blog_key (ix_id e))")
    case None
    then show ?thesis using v ih by (auto simp: template_def)
  next
    case (Some w)
    then obtain b where w: "w = Blog b" "b_id b = ix_id e"
      using typed_blog_key[OF assms(1) cf] by blast
    show ?thesis
    proof (cases "search_filter search b \<and> tag_filter tag b")
      case True
      then show ?thesis using v ih Some w cf by (auto simp: template_def)
    next
      case False
      then show ?thesis using v ih Some w cf by (auto simp: template_def)
    qed
  qed
qed

lemma fetch_blogs_typed:
  assumes "blog_space_typed s" and "\<forall>i \<in> set ids. colon_free i"
  shows "\<exists>blogs. fetch_blogs s ids = Inr blogs
           \<and> set blogs = {b. \<exists>i \<in> set ids. kv_get s (blog_key i) = Some (Blog b)}"
  using assms(2)
proof (induction ids)
  case Nil
  then show ?case by simp
next
  case (Cons i ids)
  then obtain blogs where ih: "fetch_blogs s ids = Inr blogs"
    "set blogs = {b. \<exists>i \<in> set ids. kv_get s (blog_key i) = Some (Blog b)}"
    by auto
  have cf: "colon_free i" using Cons.prems by simp
  show ?case
  proof (cases "kv_get s (blog_key i)")
    case None
    then show ?thesis using ih by auto
  next
    case (Some w)
    then obtain b where "w = Blog b" using typed_blog_key[OF assms(1) cf] by blast
    then show ?thesis using ih Some by auto
  qed
qed

lemma scanned_ids_distinct:
  assumes "index_keyed s"
  shows "distinct (map (\<lambda>v. template (id_field v)) (kv_getByPrefix s published_prefix))"
proof -
  let ?scan = "filter (\<lambda>kv. prefix published_prefix (fst kv)) s"
  have keys: "distinct (map fst ?scan)"
    using assms by (simp add: index_keyed_def distinct_map_filter)
  have eq: "map fst ?scan = map (\<lambda>kv. published_key (template (id_field (snd kv)))) ?scan"
    using assms by (intro map_cong) (auto simp: index_keyed_def list_all_iff)
  have "distinct (map (\<lambda>kv. published_key (template (id_field (snd kv)))) ?scan)"
    using keys by (simp only: eq)
  then have "distinct (map published_key
               (map (\<lambda>v. template (id_field v)) (kv_getByPrefix s published_prefix)))"
    by (simp add: kv_getByPrefix_def comp_def)
  then show ?thesis unfolding distinct_map[of published_key] by (rule conjunct1)
qed

lemma collect_ids_distinct:
  assumes "blog_space_typed s"
    and "\<forall>v \<in> set vs. \<exists>e. v = Published e \<and> colon_free (ix_id e)"
    and "distinct (map (\<lambda>v. template (id_field v)) vs)"
  shows "\<exists>ids. collect_ids s search tag vs = Inr ids \<and> distinct ids
           \<and> set ids \<subseteq> (\<lambda>v. template (id_field v)) ` set vs
           \<and> length ids \<le> length vs"
  using assms(2,3)
proof (induction vs)
  case Nil
  then show ?case by simp
next
  case (Cons v vs)
  then obtain e where v: "v = Published e" and cf: "colon_free (ix_id e)" by auto
  from Cons obtain ids where ih: "collect_ids s search tag vs = Inr ids" "distinct ids"
    "set ids \<subseteq> (\<lambda>v. template (id_field v)) ` set vs" "length ids \<le> length vs"
    by auto
  have fresh: "ix_id e \<notin> set ids"
    using Cons.prems(2) ih(3) v by (auto simp: template_def)
  show ?case
  proof (cases "kv_get s (blog_key (ix_id e))")
    case None
    then show ?thesis using v ih by (auto simp: template_def)
  next
    case (Some w)
    then obtain b where w: "w = Blog b" "b_id b = ix_id e"
      using typed_blog_key[OF assms(1) cf] by blast
    show ?thesis
      using v ih Some w fresh by (auto simp: template_def)
  qed
qed

lemma fetch_blogs_distinct:
  assumes "blog_space_typed s" and "\<forall>i \<in> set ids. colon_free i" and "distinct ids"
  shows "\<exists>blogs. fetch_blogs s ids = Inr blogs \<and> distinct (map b_id blogs)
           \<and> b_id ` set blogs \<subseteq> set ids \<and> length blogs \<le> length ids"
  using assms(2,3)
proof (induction ids)
  case Nil
  then show ?case by simp
next
  case (Cons i ids)
  then obtain blogs where ih: "fetch_blogs s ids = Inr blogs" "distinct (map b_id blogs)"
    "b_id ` set blogs \<subseteq> set ids" "length blogs \<le> length ids"
    by auto
  have cf: "colon_free i" using Cons.prems by simp
  have fresh: "i \<notin> b_id ` set blogs" using Cons.prems(2) ih(3) by auto
  show ?case
  proof (cases "kv_get s (blog_key i)")
    case None
    then show ?thesis using ih by auto
  next
    case (Some w)
    then obtain b where "w = Blog b" "b_id b = i"
      using typed_blog_key[OF assms(1) cf] by blast
    then show ?thesis using ih Some fresh by auto
  qed
qed

lemma validBlogs_typed:
  assumes "blog_space_typed s"
  shows "\<exists>valid. validBlogs s search tag = Inr valid
           \<and> set valid = {b. published_match s search tag b}"
proof -
  let ?scan = "kv_getByPrefix s published_prefix"
  obtain ids where c: "collect_ids s search tag ?scan = Inr ids"
    and ids: "set ids = {ix_id e | e. Published e \<in> set ?scan
                          \<and> (\<exists>b. kv_get s (blog_key (ix_id e)) = Some (Blog b)
                                 \<and> search_filter search b \<and> tag_filter tag b)}"
    and cf: "\<forall>i \<in> set ids. colon_free i"
    using collect_ids_typed[OF assms, of ?scan] scanned_published[OF assms]
    by blast
  obtain blogs where f: "fetch_blogs s ids = Inr blogs"
    and blogs: "set blogs = {b. \<exists>i \<in> set ids. kv_get s (blog_key i) = Some (Blog b)}"
    using fetch_blogs_typed[OF assms cf] by blast
  have "set blogs = {b. published_match s search tag b}"
  proof (intro set_eqI iffI; clarify)
    fix b assume "b \<in> set blogs"
    then obtain e b' where e: "Published e \<in> set ?scan"
      and b': "kv_get s (blog_key (ix_id e)) = Some (Blog b')"
         "search_filter search b'" "tag_filter tag b'"
      and b: "kv_get s (blog_key (ix_id e)) = Some (Blog b)"
      using blogs ids by auto
    then have "b' = b" by simp
    then show "published_match s search tag b"
      using e b' by (auto simp: published_match_def list_ex_iff intro!: bexI[of _ "Published e"])
  next
    fix b assume "published_match s search tag b"
    then obtain v where v: "v \<in> set ?scan"
      and m: "case v of Published e \<Rightarrow> kv_get s (blog_key (ix_id e)) = Some (Blog b) | _ \<Rightarrow> False"
      and fl: "search_filter search b" "tag_filter tag b"
      by (auto simp: published_match_def list_ex_iff)
    from m obtain e where e: "v = Published e" "kv_get s (blog_key (ix_id e)) = Some (Blog b)"
      by (cases v) auto
    then have "ix_id e \<in> set ids" using v fl ids by auto
    then show "b \<in> set blogs" using blogs e(2) by auto
  qed
  then show ?thesis using c f by (simp add: validBlogs_def newest_first_def)
qed

lemma validBlogs_distinct:
  assumes "blog_space_typed s" and "index_keyed s"
  shows "\<exists>valid. validBlogs s search tag = Inr valid \<and> distinct valid"
proof -
  let ?scan = "kv_getByPrefix s published_prefix"
  obtain ids where c: "collect_ids s search tag ?scan = Inr ids" and d: "distinct ids"
    and sub: "set ids \<subseteq> (\<lambda>v. template (id_field v)) ` set ?scan"
    using collect_ids_distinct[OF assms(1) _ scanned_ids_distinct[OF assms(2)], of search tag]
      scanned_published[OF assms(1)]
    by blast
  have cf: "\<forall>i \<in> set ids. colon_free i"
    using sub scanned_published[OF assms(1)] by (fastforce simp: template_def)
  obtain blogs where f: "fetch_blogs s ids = Inr blogs" and db: "distinct (map b_id blogs)"
    using fetch_blogs_distinct[OF assms(1) cf d] by blast
  have "distinct blogs" using db by (simp add: distinct_map)
  then show ?thesis using c f by (simp add: validBlogs_def newest_first_def)
qed

lemma collect_ids_length:
  "collect_ids s search tag vs = Inr ids \<Longrightarrow> length ids \<le> length vs"
  by (induction vs arbitrary: ids)
     (auto split: option.splits kv_value.splits sum.splits if_splits)

lemma fetch_blogs_length:
  "fetch_blogs s ids = Inr blogs \<Longrightarrow> length blogs \<le> length ids"
  by (induction ids arbitrary: blogs)
     (auto split: option.splits kv_value.splits sum.splits)

lemma validBlogs_length:
  assumes "validBlogs s search tag = Inr valid"
  shows "length valid \<le> length (kv_getByPrefix s published_prefix)"
proof -
  from assms obtain ids blogs where
    "collect_ids s search tag (kv_getByPrefix s published_prefix) = Inr ids"
    "fetch_blogs s ids = Inr blogs" "valid = newest_first blogs"
    by (auto simp: validBlogs_def split: sum.splits)
  then show ?thesis
    using collect_ids_length[of s search tag "kv_getByPrefix s published_prefix" ids]
      fetch_blogs_length[of s ids blogs]
    by (simp add: newest_first_def)
qed

lemma validBlogs_sorted:
  "validBlogs s search tag = Inr valid \<Longrightarrow> sorted_wrt (\<lambda>a b. b_createdAt a \<ge> b_createdAt b) valid"
proof -
  assume "validBlogs s search tag = Inr valid"
  then obtain blogs where "valid = newest_first blogs"
    by (auto simp: validBlogs_def split: sum.splits)
  moreover have "sorted (map (\<lambda>blog. - b_createdAt blog) (newest_first blogs))"
    by (simp add: newest_first_def)
  ultimately show ?thesis
    by (simp add: sorted_wrt_map)
qed

lemma js_ceil_div_pos:
  "1 \<le> l \<Longrightarrow> js_ceil_div n (Num l) = Some \<lceil>real n / real_of_int l\<rceil>"
  by (simp add: js_ceil_div_def)

lemma parseInt_defaults: "parseInt ''1'' = Num 1" "parseInt ''10'' = Num 10"
  by code_simp+

text \<open>
  Claim C3, amended: in the branch of \<open>listBlogs\<close> without \<open>authorId\<close>, for every page and
  every limit that \<open>parseInt\<close> reads as finite numbers from 1 on, the matching published blogs
  are sorted by \<open>createdAt\<close>, newest first, and each of them is listed once, so that the total
  is their number; the page holds the slice of at most \<open>limit\<close> of them that starts at index
  \<open>(page - 1) * limit\<close>, where the limit is 10 when none is supplied and the page is 1 when
  none is supplied; a page beyond the last is empty; and \<open>totalPages\<close> is the total divided by
  the limit and rounded up, which is 0 when nothing matches.

  The store is one whose blog keys hold what the handlers write, with the index keyed by blog
  id, and the scan of the index has fewer than \<open>2^32\<close> entries, as every JavaScript array.
\<close>

theorem listBlogs_page:
  assumes typed: "blog_space_typed s" and keyed: "index_keyed s"
    and array: "length (kv_getByPrefix s published_prefix) < 2 ^ 32"
    and branch: "or_else (q_authorId q) [] = []"
    and page: "parseInt (param_or (q_page q) ''1'') = Num p" "1 \<le> p"
    and limit: "parseInt (param_or (q_limit q) ''10'') = Num l" "1 \<le> l"
  shows "\<exists>valid.
           validBlogs s (or_else (q_search q) []) (or_else (q_tag q) []) = Inr valid
         \<and> set valid = {b. published_match s (or_else (q_search q) []) (or_else (q_tag q) []) b}
         \<and> length valid
             = card {b. published_match s (or_else (q_search q) []) (or_else (q_tag q) []) b}
         \<and> sorted_wrt (\<lambda>a b. b_createdAt b \<le> b_createdAt a) valid
         \<and> listBlogs caller q s =
             Inr (BlogPage \<lparr>pg_blogs = map (\<lambda>b. (b, author_of s (b_authorId b)))
                                         (take (nat l) (drop (nat ((p - 1) * l)) valid)),
                             pg_total = length valid, pg_page = Num p,
                             pg_totalPages = Some \<lceil>real (length valid) / real_of_int l\<rceil>\<rparr>)
         \<and> (int (length valid) \<le> (p - 1) * l
              \<longrightarrow> take (nat l) (drop (nat ((p - 1) * l)) valid) = [])
         \<and> (valid = [] \<longrightarrow> \<lceil>real (length valid) / real_of_int l\<rceil> = 0)
         \<and> (q_limit q = None \<or> q_limit q = Some [] \<longrightarrow> l = 10)
         \<and> (q_page q = None \<or> q_page q = Some [] \<longrightarrow> p = 1)"
proof -
  obtain valid where v: "validBlogs s (or_else (q_search q) []) (or_else (q_tag q) []) = Inr valid"
    and m: "set valid = {b. published_match s (or_else (q_search q) []) (or_else (q_tag q) []) b}"
    using validBlogs_typed[OF typed] by blast
  have "distinct valid"
    using validBlogs_distinct[OF typed keyed, of "or_else (q_search q) []" "or_else (q_tag q) []"] v
    by auto
  then have "card (set valid) = length valid" by (rule distinct_card)
  then have count: "length valid
      = card {b. published_match s (or_else (q_search q) []) (or_else (q_tag q) []) b}"
    by (simp only: m)
  have sorted: "sorted_wrt (\<lambda>a b. b_createdAt b \<le> b_createdAt a) valid"
    using validBlogs_sorted[OF v] by simp
  have len: "int (length valid) < 2 ^ 53"
    using validBlogs_length[OF v] array by simp
  have slice: "js_slice valid (js_mul (js_sub (Num p) (Num 1)) (Num l))
           (js_add (js_mul (js_sub (Num p) (Num 1)) (Num l)) (Num l))
         = take (nat l) (drop (nat ((p - 1) * l)) valid)"
    using page(2) limit(2) len by (rule page_slice)
  have run: "listBlogs caller q s =
             Inr (BlogPage \<lparr>pg_blogs = map (\<lambda>b. (b, author_of s (b_authorId b)))
                                         (take (nat l) (drop (nat ((p - 1) * l)) valid)),
                             pg_total = length valid, pg_page = Num p,
                             pg_totalPages = Some \<lceil>real (length valid) / real_of_int l\<rceil>\<rparr>)"
    using branch v limit(2)
    by (simp add: listBlogs_def Let_def page(1) limit(1) slice js_ceil_div_pos)
  have d: "(q_limit q = None \<or> q_limit q = Some [] \<longrightarrow> l = 10)
         \<and> (q_page q = None \<or> q_page q = Some [] \<longrightarrow> p = 1)"
    using page(1) limit(1) by (auto simp: param_or_def parseInt_defaults)
  show ?thesis using v m count sorted run d by auto
qed

theorem listBlogs_page_witness:
  "blog_space_typed foo_store \<and> index_keyed foo_store
   \<and> length (kv_getByPrefix foo_store published_prefix) < 2 ^ 32
   \<and> or_else (q_authorId foo_query) [] = []
   \<and> parseInt (param_or (q_page foo_query) ''1'') = Num 2 \<and> (1::int) \<le> 2
   \<and> parseInt (param_or (q_limit foo_query) ''10'') = Num 1 \<and> (1::int) \<le> 1
   \<and> validBlogs foo_store ''foo'' []
       = Inr [titled_blog ''b2'' ''Foo two'' 300, titled_blog ''b3'' ''Third foo'' 200,
              titled_blog ''b1'' ''Foo one'' 100]
   \<and> card {b. published_match foo_store ''foo'' [] b} = 3
   \<and> listBlogs None foo_query foo_store
       = Inr (BlogPage \<lparr>pg_blogs = [(titled_blog ''b3'' ''Third foo'' 200, None)],
                         pg_total = 3, pg_page = Num 2, pg_totalPages = Some 3\<rparr>)
   \<and> parseInt (param_or (q_page (foo_query\<lparr>q_page := Some ''7''\<rparr>)) ''1'') = Num 7
   \<and> page_summary (listBlogs None (foo_query\<lparr>q_page := Some ''7''\<rparr>) foo_store)
       = Some (0, 3, Some 3)
   \<and> blog_space_typed [] \<and> index_keyed []
   \<and> q_limit default_query = None \<and> q_page default_query = None
   \<and> parseInt (param_or (q_page default_query) ''1'') = Num 1
   \<and> parseInt (param_or (q_limit default_query) ''10'') = Num 10
   \<and> validBlogs [] [] [] = Inr []
   \<and> page_summary (listBlogs None default_query []) = Some (0, 0, Some 0)"
proof -
  have t: "blog_space_typed foo_store" by code_simp
  have k: "index_keyed foo_store" by code_simp
  have n: "length (kv_getByPrefix foo_store published_prefix) = 4" by code_simp
  have a: "length (kv_getByPrefix foo_store published_prefix) < 2 ^ 32" by (simp add: n)
  have b: "or_else (q_authorId foo_query) [] = []"
    and qs: "or_else (q_search foo_query) [] = ''foo''" "or_else (q_tag foo_query) [] = []"
    by (simp_all add: foo_query_def or_else_def)
  have p: "parseInt (param_or (q_page foo_query) ''1'') = Num 2"
    and l: "parseInt (param_or (q_limit foo_query) ''10'') = Num 1"
    by code_simp+
  have vb: "validBlogs foo_store ''foo'' []
       = Inr [titled_blog ''b2'' ''Foo two'' 300, titled_blog ''b3'' ''Third foo'' 200,
              titled_blog ''b1'' ''Foo one'' 100]"
    by code_simp
  have au: "author_of foo_store (b_authorId (titled_blog ''b3'' ''Third foo'' 200)) = None"
    by code_simp
  note first = listBlogs_page[OF t k a b p _ l, of None]
  from first vb have c: "card {b. published_match foo_store ''foo'' [] b} = 3"
    by (auto simp: qs)
  from first vb
  have r: "listBlogs None foo_query foo_store
       = Inr (BlogPage \<lparr>pg_blogs = [(titled_blog ''b3'' ''Third foo'' 200, None)],
                         pg_total = 3, pg_page = Num 2, pg_totalPages = Some 3\<rparr>)"
    by (auto simp: qs au)
  have b7: "or_else (q_authorId (foo_query\<lparr>q_page := Some ''7''\<rparr>)) [] = []"
    and qs7: "or_else (q_search (foo_query\<lparr>q_page := Some ''7''\<rparr>)) [] = ''foo''"
      "or_else (q_tag (foo_query\<lparr>q_page := Some ''7''\<rparr>)) [] = []"
    by (simp_all add: foo_query_def or_else_def)
  have p7: "parseInt (param_or (q_page (foo_query\<lparr>q_page := Some ''7''\<rparr>)) ''1'') = Num 7"
    and l7: "parseInt (param_or (q_limit (foo_query\<lparr>q_page := Some ''7''\<rparr>)) ''10'') = Num 1"
    by code_simp+
  from listBlogs_page[OF t k a b7 p7 _ l7, of None] vb
  have r7: "page_summary (listBlogs None (foo_query\<lparr>q_page := Some ''7''\<rparr>) foo_store)
       = Some (0, 3, Some 3)"
    by (auto simp: qs qs7 page_summary_def)
  have t0: "blog_space_typed []" by (rule typed_Nil)
  have k0: "index_keyed []" by (simp add: index_keyed_def)
  have a0: "length (kv_getByPrefix [] published_prefix) < 2 ^ 32"
    by (simp add: kv_getByPrefix_def)
  have b0: "or_else (q_authorId default_query) [] = []"
    and qs0: "or_else (q_search default_query) [] = []" "or_else (q_tag default_query) [] = []"
    and d0: "q_limit default_query = None" "q_page default_query = None"
    by (simp_all add: default_query_def or_else_def)
  have p0: "parseInt (param_or (q_page default_query) ''1'') = Num 1"
    and l0: "parseInt (param_or (q_limit default_query) ''10'') = Num 10"
    by code_simp+
  have v0: "validBlogs [] [] [] = Inr []" by code_simp
  from listBlogs_page[OF t0 k0 a0 b0 p0 _ l0, of None] v0
  have r0: "page_summary (listBlogs None default_query []) = Some (0, 0, Some 0)"
    by (auto simp: qs0 page_summary_def)
  show ?thesis using t k a b p l vb c r p7 r7 t0 k0 d0 p0 l0 v0 r0 by simp
qed

lemma huge_limit_page:
  "page_summary (listBlogs None (foo_query\<lparr>q_page := Some ''1'', q_limit := Some huge_limit\<rparr>)
        foo_store)
       = Some (0, 3, Some 0)"
proof -
  have vb: "validBlogs foo_store ''foo'' []
       = Inr [titled_blog ''b2'' ''Foo two'' 300, titled_blog ''b3'' ''Third foo'' 200,
              titled_blog ''b1'' ''Foo one'' 100]"
    by code_simp
  have one: "parseInt ''1'' = Num 1" by code_simp
  have ne: "huge_limit \<noteq> []" by (simp add: huge_limit_def)
  have start: "js_mul (js_sub (Num 1) (Num 1)) Infinity = NaN"
    by (simp add: js_sub_def to_double_def signed_infinity_def)
  show ?thesis
    by (simp add: listBlogs_def Let_def foo_query_def or_else_def param_or_def ne one
        parseInt_huge_limit vb start js_slice_def relative_index_def js_ceil_div_def
        page_summary_def)
qed

text \<open>
  Claim C3 as stated fails on the code. Without a \<open>limit\<close> the page size is 10, not 12: of 11
  published blogs the first page shows 10 and there are 2 pages. \<open>totalPages\<close> has no minimum
  of 1: for an empty listing it is 0. And not every page and limit behaves as a page: page
  \<open>-1\<close> is out of range, yet \<open>slice\<close> counts its negative indices from the end and returns a
  blog; limit 0 gives \<open>null\<close> for \<open>totalPages\<close>; and a limit of 310 digits is read as
  \<open>Infinity\<close>, for which the first page is empty and \<open>totalPages\<close> is 0 although three blogs
  match.
\<close>

theorem listBlogs_default_limit_counterexample:
  "page_summary (listBlogs None default_query (numbered_store 11)) = Some (10, 11, Some 2)
   \<and> page_summary (listBlogs None default_query []) = Some (0, 0, Some 0)
   \<and> page_summary (listBlogs None (foo_query\<lparr>q_page := Some ''-1''\<rparr>) foo_store)
       = Some (1, 3, Some 3)
   \<and> page_summary (listBlogs None (foo_query\<lparr>q_limit := Some ''0''\<rparr>) foo_store)
       = Some (0, 3, None)
   \<and> parseInt huge_limit = Infinity
   \<and> page_summary (listBlogs None (foo_query\<lparr>q_page := Some ''1'', q_limit := Some huge_limit\<rparr>)
        foo_store)
       = Some (0, 3, Some 0)"
proof -
  have "page_summary (listBlogs None default_query (numbered_store 11)) = Some (10, 11, Some 2)
   \<and> page_summary (listBlogs None default_query []) = Some (0, 0, Some 0)
   \<and> page_summary (listBlogs None (foo_query\<lparr>q_page := Some ''-1''\<rparr>) foo_store)
       = Some (1, 3, Some 3)
   \<and> page_summary (listBlogs None (foo_query\<lparr>q_limit := Some ''0''\<rparr>) foo_store)
       = Some (0, 3, None)"
    by code_simp
  then show ?thesis
    using parseInt_huge_limit huge_limit_page by (simp only: simp_thms)
qed

section \<open>Tags\<close>











section \<open>Well-formed stores\<close>

text \<open>
  The hypotheses on the store in the theorems above are properties of every store that the
  handlers build from the empty store when the identifiers they are given have no colon, as
  the values of \<open>crypto.randomUUID()\<close> and the user ids of the identity provider. The empty
  store has them, and every handler keeps them when it is called with such identifiers. A
  blog id with a colon in the path of \<open>PUT /blogs/:id\<close> or \<open>DELETE /blogs/:id\<close> is outside
  these lemmas.
\<close>

lemma well_formed_empty: "well_formed []"
  by (simp add: well_formed_def blog_space_typed_def side_keys_typed_def index_keyed_def)

subsection \<open>Blog keys\<close>

lemma typed_kv_del: "blog_space_typed s \<Longrightarrow> blog_space_typed (kv_del s k)"
  by (auto simp: blog_space_typed_def list_all_iff set_kv_del)

lemma typed_fold_del:
  "blog_space_typed s \<Longrightarrow> blog_space_typed (fold (\<lambda>c st. kv_del st (f c)) cs s)"
  by (auto simp: blog_space_typed_def list_all_iff set_fold_del)

lemma typed_stored_blog:
  assumes "blog_space_typed s" and "kv_get s (blog_key i) = Some (Blog b)"
  shows "b_id b = i \<and> colon_free i \<and> \<not> prefix published_prefix (blog_key i)"
proof -
  have "(blog_key i, Blog b) \<in> set s" using assms(2) by (simp add: kv_get_def map_of_SomeD)
  then have w: "well_shaped (blog_key i) (Blog b)"
    using assms(1) by (auto simp: blog_space_typed_def list_all_iff)
  have np: "\<not> prefix published_prefix (blog_key i)"
    using w by (auto simp: well_shaped_published)
  then show ?thesis
    using w blog_key_prefix[of i] by (auto simp: well_shaped_blog blog_key_inj)
qed

lemma well_shaped_user_key: "well_shaped (user_key u) v"
  by (rule well_shaped_other) (simp add: user_key_def)

lemma well_shaped_comment_key: "well_shaped (comment_key b c) v"
  using comment_key_prefix by (rule well_shaped_other)

lemma well_shaped_user_blogs_key: "well_shaped (user_blogs_key u) v"
  using user_blogs_key_prefix by (rule well_shaped_other)

lemma well_shaped_own_blog:
  "colon_free i \<Longrightarrow> b_id b = i \<Longrightarrow> well_shaped (blog_key i) (Blog b)"
  using blog_key_not_published_prefix[of i] blog_key_prefix[of i]
  by (simp add: well_shaped_blog)

lemma well_shaped_own_entry:
  "colon_free i \<Longrightarrow> ix_id e = i \<Longrightarrow> well_shaped (published_key i) (Published e)"
  by (simp add: well_shaped_published published_key_def)

lemmas well_shaped_writes = well_shaped_own_blog well_shaped_own_entry well_shaped_user_key
  well_shaped_comment_key well_shaped_user_blogs_key

lemma createBlog_typed:
  assumes "blog_space_typed s" and "colon_free blogId"
  shows "blog_space_typed (snd (createBlog caller inp blogId now s))"
  using assms
  by (auto simp: createBlog_def Let_def split: option.splits
      intro!: typed_kv_set well_shaped_writes)

lemma typed_colon_free_key:
  assumes "blog_space_typed s" and "colon_free i"
  shows "kv_get s (blog_key i) = None \<or> (\<exists>b. kv_get s (blog_key i) = Some (Blog b) \<and> b_id b = i)"
  using typed_blog_key[OF assms] by (cases "kv_get s (blog_key i)") auto

lemma updateBlog_typed:
  assumes "blog_space_typed s" and "colon_free blogId"
  shows "blog_space_typed (snd (updateBlog caller blogId inp now s))"
  using assms typed_colon_free_key[OF assms]
  by (auto simp: updateBlog_def Let_def split: option.splits
      intro!: typed_kv_set typed_kv_del well_shaped_writes)

lemma deleteBlog_typed:
  assumes "blog_space_typed s"
  shows "blog_space_typed (snd (deleteBlog caller blogId s))"
  using assms
  by (auto simp: deleteBlog_def Let_def split: option.splits
      intro!: typed_fold_del typed_kv_set typed_kv_del well_shaped_writes)

lemma getBlogBySlug_typed:
  assumes "blog_space_typed s"
  shows "blog_space_typed (snd (getBlogBySlug slug s))"
proof -
  have "blog_space_typed (kv_set s (blog_key i) (Blog (b\<lparr>b_views := b_views b + 1\<rparr>)))"
    if "kv_get s (blog_key i) = Some (Blog b)" for i b
    using typed_stored_blog[OF assms that] assms
    by (auto intro!: typed_kv_set well_shaped_writes)
  then show ?thesis
    using assms
    by (auto simp: getBlogBySlug_def Let_def split: option.splits kv_value.splits)
qed

lemma addComment_typed:
  assumes "blog_space_typed s"
  shows "blog_space_typed (snd (addComment caller blogId content commentId now s))"
  using assms
  by (auto simp: addComment_def Let_def split: option.splits
      intro!: typed_kv_set well_shaped_writes)

lemma updateProfile_writes:
  assumes "kv_get s (user_key userId) = None \<or> (\<exists>u. kv_get s (user_key userId) = Some (User u))"
  shows "snd (updateProfile caller userId patch now s) = s
   \<or> (\<exists>u. snd (updateProfile caller userId patch now s) = kv_set s (user_key userId) (User u))"
proof (cases "\<exists>u. fst (updateProfile caller userId patch now s) = Inr u")
  case True
  then obtain u where "fst (updateProfile caller userId patch now s) = Inr u" by blast
  then have "snd (updateProfile caller userId patch now s) = kv_set s (user_key userId) (User u)"
    using assms
    by (auto simp: updateProfile_def Let_def split: option.splits if_splits)
  then show ?thesis by blast
next
  case False
  then have "snd (updateProfile caller userId patch now s) = s"
    using assms
    by (auto simp: updateProfile_def Let_def split: option.splits if_splits)
  then show ?thesis by simp
qed

lemma updateProfile_typed:
  assumes "blog_space_typed s"
    and "kv_get s (user_key userId) = None \<or> (\<exists>u. kv_get s (user_key userId) = Some (User u))"
  shows "blog_space_typed (snd (updateProfile caller userId patch now s))"
  using assms(1) updateProfile_writes[OF assms(2), of caller patch now]
  by (auto intro!: typed_kv_set well_shaped_writes)

subsection \<open>Comment keys and blog lists\<close>

lemma takeWhile_upto: "a \<notin> set xs \<Longrightarrow> takeWhile (\<lambda>x. x \<noteq> a) (xs @ a # r) = xs"
  by (induction xs) auto

lemma split_at_colon:
  assumes "xs @ CHR '':'' # r1 = ys @ CHR '':'' # r2"
    and "CHR '':'' \<notin> set xs" and "CHR '':'' \<notin> set ys"
  shows "xs = ys"
proof -
  have "takeWhile (\<lambda>x. x \<noteq> CHR '':'') (xs @ CHR '':'' # r1) = xs"
    using assms(2) by (rule takeWhile_upto)
  moreover have "takeWhile (\<lambda>x. x \<noteq> CHR '':'') (ys @ CHR '':'' # r2) = ys"
    using assms(3) by (rule takeWhile_upto)
  ultimately show ?thesis using assms(1) by (simp only:)
qed

lemma comment_prefix_same_blog:
  assumes "prefix (comment_prefix x) (comment_key b c)" and "colon_free x" and "colon_free b"
  shows "x = b"
proof -
  from assms(1) obtain r where "comment_key b c = comment_prefix x @ r"
    by (auto simp: prefix_def)
  then have "b @ CHR '':'' # c = x @ CHR '':'' # r"
    by (simp add: comment_key_def comment_prefix_def)
  then show ?thesis
    using assms(2,3) split_at_colon[of b c x r] by (simp add: colon_free_def)
qed

lemma comment_prefix_is_comment: "prefix (comment_prefix x) k \<Longrightarrow> prefix ''comment:'' k"
  by (auto simp: comment_prefix_def prefix_def)

lemma side_keys_comments_keyed:
  assumes "side_keys_typed s" and "colon_free blogId"
  shows "comments_keyed s blogId"
proof -
  have "fst kv = comment_key blogId (template (id_field (snd kv)))"
    if "kv \<in> set s" and p: "prefix (comment_prefix blogId) (fst kv)" for kv
  proof -
    have "side_shaped (fst kv) (snd kv)"
      using assms(1) that(1) by (simp add: side_keys_typed_def list_all_iff)
    then obtain c where c: "snd kv = Comment c" "colon_free (cm_blogId c)"
      "fst kv = comment_key (cm_blogId c) (cm_id c)"
      using comment_prefix_is_comment[OF p]
      by (auto simp: side_shaped_def split: kv_value.splits)
    then have "blogId = cm_blogId c"
      using p assms(2) comment_prefix_same_blog[of blogId "cm_blogId c" "cm_id c"] by simp
    then show ?thesis using c by (simp add: template_def)
  qed
  then show ?thesis by (auto simp: comments_keyed_def list_all_iff)
qed

lemma side_keys_user_blogs:
  assumes "side_keys_typed s"
  shows "\<exists>ids. user_blogs s userId = Some ids"
proof (cases "kv_get s (user_blogs_key userId)")
  case None
  then show ?thesis by (simp add: user_blogs_def)
next
  case (Some v)
  then have "(user_blogs_key userId, v) \<in> set s" by (simp add: kv_get_def map_of_SomeD)
  then have "side_shaped (user_blogs_key userId) v"
    using assms by (auto simp: side_keys_typed_def list_all_iff)
  moreover have "\<not> prefix ''comment:'' (user_blogs_key userId)"
    "prefix ''user:'' (user_blogs_key userId)"
    "suffix '':blogs'' (drop 5 (user_blogs_key userId))"
    by (simp_all add: user_blogs_key_def suffix_def)
  ultimately obtain xs where "v = BlogIds xs"
    by (auto simp: side_shaped_def split: kv_value.splits)
  then show ?thesis using Some by (simp add: user_blogs_def)
qed


lemma side_kv_set:
  "side_keys_typed s \<Longrightarrow> side_shaped k v \<Longrightarrow> side_keys_typed (kv_set s k v)"
  unfolding kv_set_def side_keys_typed_def
  by (induction s) auto

lemma side_kv_del: "side_keys_typed s \<Longrightarrow> side_keys_typed (kv_del s k)"
  by (auto simp: side_keys_typed_def list_all_iff set_kv_del)

lemma side_fold_del:
  "side_keys_typed s \<Longrightarrow> side_keys_typed (fold (\<lambda>c st. kv_del st (f c)) cs s)"
  by (auto simp: side_keys_typed_def list_all_iff set_fold_del)

lemma side_shaped_blog_key: "side_shaped (blog_key i) v"
  by (simp add: side_shaped_def blog_key_def)

lemma side_shaped_published_key: "side_shaped (published_key i) v"
  by (simp add: side_shaped_def published_key_def published_prefix_def)

lemma side_shaped_user_blogs_key: "side_shaped (user_blogs_key u) (BlogIds xs)"
  by (simp add: side_shaped_def user_blogs_key_def suffix_def)

lemma side_shaped_user_key: "colon_free u \<Longrightarrow> side_shaped (user_key u) (User x)"
  by (auto simp: side_shaped_def user_key_def colon_free_def suffix_def)

lemma side_shaped_comment_key:
  "colon_free b \<Longrightarrow> colon_free i \<Longrightarrow> cm_blogId c = b \<Longrightarrow> cm_id c = i
   \<Longrightarrow> side_shaped (comment_key b i) (Comment c)"
  by (simp add: side_shaped_def comment_key_def comment_prefix_def)

lemmas side_shaped_writes = side_shaped_blog_key side_shaped_published_key
  side_shaped_user_blogs_key side_shaped_user_key side_shaped_comment_key

lemma createBlog_side:
  "side_keys_typed s \<Longrightarrow> side_keys_typed (snd (createBlog caller inp blogId now s))"
  by (auto simp: createBlog_def Let_def split: option.splits
      intro!: side_kv_set side_shaped_writes)

lemma updateBlog_side:
  assumes "side_keys_typed s" and "blog_space_typed s" and "colon_free blogId"
  shows "side_keys_typed (snd (updateBlog caller blogId inp now s))"
  using assms(1) typed_colon_free_key[OF assms(2,3)]
  by (auto simp: updateBlog_def Let_def split: option.splits
      intro!: side_kv_set side_kv_del side_shaped_writes)

lemma deleteBlog_side:
  "side_keys_typed s \<Longrightarrow> side_keys_typed (snd (deleteBlog caller blogId s))"
  by (auto simp: deleteBlog_def Let_def split: option.splits
      intro!: side_fold_del side_kv_set side_kv_del side_shaped_writes)

lemma getBlogBySlug_writes:
  assumes "blog_space_typed s"
  shows "snd (getBlogBySlug slug s) = s
       \<or> (\<exists>i b. snd (getBlogBySlug slug s) = kv_set s (blog_key i) (Blog b))"
proof (cases "slug = []")
  case True
  then show ?thesis by (simp add: getBlogBySlug_def)
next
  case False
  show ?thesis
  proof (cases "first_index_entry s slug")
    case None
    then show ?thesis using getBlogBySlug_none[OF assms] by simp
  next
    case (Some e)
    then have cf: "colon_free (ix_id e)" using first_index_entry_Some[OF assms] by simp
    consider "kv_get s (blog_key (ix_id e)) = None"
      | b where "kv_get s (blog_key (ix_id e)) = Some (Blog b)"
      using typed_colon_free_key[OF assms cf] by auto
    then show ?thesis
    proof cases
      case 1
      then show ?thesis using getBlogBySlug_orphan[OF assms Some] by simp
    next
      case 2
      show ?thesis using getBlogBySlug_found[OF assms Some 2 False] by auto
    qed
  qed
qed

lemma getBlogBySlug_side:
  assumes "side_keys_typed s" and "blog_space_typed s"
  shows "side_keys_typed (snd (getBlogBySlug slug s))"
  using assms(1) getBlogBySlug_writes[OF assms(2), of slug]
  by (auto intro!: side_kv_set side_shaped_writes)

lemma addComment_side:
  "side_keys_typed s \<Longrightarrow> colon_free blogId \<Longrightarrow> colon_free commentId
   \<Longrightarrow> side_keys_typed (snd (addComment caller blogId content commentId now s))"
  by (auto simp: addComment_def Let_def split: option.splits
      intro!: side_kv_set side_shaped_writes)

lemma side_keys_user:
  assumes "side_keys_typed s" and "colon_free userId"
  shows "kv_get s (user_key userId) = None \<or> (\<exists>u. kv_get s (user_key userId) = Some (User u))"
proof (cases "kv_get s (user_key userId)")
  case None
  then show ?thesis by simp
next
  case (Some v)
  then have "(user_key userId, v) \<in> set s" by (simp add: kv_get_def map_of_SomeD)
  then have "side_shaped (user_key userId) v"
    using assms(1) by (auto simp: side_keys_typed_def list_all_iff)
  moreover have "\<not> prefix ''comment:'' (user_key userId)" "prefix ''user:'' (user_key userId)"
    "\<not> suffix '':blogs'' (drop 5 (user_key userId))"
    using assms(2) by (auto simp: user_key_def suffix_def colon_free_def)
  ultimately obtain u where "v = User u"
    by (auto simp: side_shaped_def split: kv_value.splits)
  then show ?thesis using Some by simp
qed

lemma updateProfile_side:
  assumes "side_keys_typed s" and "colon_free userId"
  shows "side_keys_typed (snd (updateProfile caller userId patch now s))"
  using assms updateProfile_writes[OF side_keys_user[OF assms], of caller patch now]
  by (auto intro!: side_kv_set side_shaped_writes)

subsection \<open>Index keys\<close>

lemma keyed_kv_set:
  assumes "index_keyed s"
    and "prefix published_prefix k \<longrightarrow> k = published_key (template (id_field v))"
  shows "index_keyed (kv_set s k v)"
proof -
  have "distinct (map fst (kv_set s k v))"
    using assms(1) by (simp add: index_keyed_def kv_set_def distinct_update)
  moreover have "list_all (\<lambda>kv. prefix published_prefix (fst kv)
                     \<longrightarrow> fst kv = published_key (template (id_field (snd kv)))) (kv_set s k v)"
    using assms set_kv_set[of s k v] by (auto simp: index_keyed_def list_all_iff)
  ultimately show ?thesis by (simp add: index_keyed_def)
qed

lemma keyed_kv_del:
  assumes "index_keyed s"
  shows "index_keyed (kv_del s k)"
proof -
  have "distinct (map fst (kv_del s k))"
    using assms by (simp add: index_keyed_def kv_del_def distinct_delete)
  moreover have "list_all (\<lambda>kv. prefix published_prefix (fst kv)
                     \<longrightarrow> fst kv = published_key (template (id_field (snd kv)))) (kv_del s k)"
    using assms by (auto simp: index_keyed_def list_all_iff set_kv_del)
  ultimately show ?thesis by (simp add: index_keyed_def)
qed

lemma keyed_fold_del:
  "index_keyed s \<Longrightarrow> index_keyed (fold (\<lambda>c st. kv_del st (f c)) cs s)"
  by (induction cs arbitrary: s) (simp_all add: keyed_kv_del)

lemma keyed_other_key: "\<not> prefix ''blog:'' k \<Longrightarrow> \<not> prefix published_prefix k"
  by (auto simp: published_prefix_def prefix_def)

lemma keyed_own_entry:
  "ix_id e = i \<Longrightarrow> published_key i = published_key (template (id_field (Published e)))"
  by (simp add: template_def)

lemma createBlog_keyed:
  assumes "index_keyed s" and "colon_free blogId"
  shows "index_keyed (snd (createBlog caller inp blogId now s))"
  using assms blog_key_not_published_prefix[OF assms(2)]
    keyed_other_key[OF user_blogs_key_prefix]
  by (auto simp: createBlog_def Let_def template_def split: option.splits
      intro!: keyed_kv_set)

lemma updateBlog_keyed:
  assumes "index_keyed s" and "blog_space_typed s" and "colon_free blogId"
  shows "index_keyed (snd (updateBlog caller blogId inp now s))"
  using assms(1) typed_colon_free_key[OF assms(2,3)] blog_key_not_published_prefix[OF assms(3)]
  by (auto simp: updateBlog_def Let_def template_def split: option.splits
      intro!: keyed_kv_set keyed_kv_del)

lemma deleteBlog_keyed:
  assumes "index_keyed s"
  shows "index_keyed (snd (deleteBlog caller blogId s))"
  using assms keyed_other_key[OF user_blogs_key_prefix]
  by (auto simp: deleteBlog_def Let_def split: option.splits
      intro!: keyed_fold_del keyed_kv_set keyed_kv_del)

lemma getBlogBySlug_keyed:
  assumes "index_keyed s" and "blog_space_typed s"
  shows "index_keyed (snd (getBlogBySlug slug s))"
proof -
  have "index_keyed (kv_set s (blog_key i) (Blog (b\<lparr>b_views := b_views b + 1\<rparr>)))"
    if "kv_get s (blog_key i) = Some (Blog b)" for i b
    using typed_stored_blog[OF assms(2) that] assms(1)
    by (auto intro!: keyed_kv_set)
  then show ?thesis
    using assms(1)
    by (auto simp: getBlogBySlug_def Let_def split: option.splits kv_value.splits)
qed

lemma addComment_keyed:
  assumes "index_keyed s"
  shows "index_keyed (snd (addComment caller blogId content commentId now s))"
  using assms keyed_other_key[OF comment_key_prefix]
  by (auto simp: addComment_def Let_def split: option.splits
      intro!: keyed_kv_set)

lemma updateProfile_keyed:
  assumes "index_keyed s"
    and "kv_get s (user_key userId) = None \<or> (\<exists>u. kv_get s (user_key userId) = Some (User u))"
  shows "index_keyed (snd (updateProfile caller userId patch now s))"
proof -
  have "\<not> prefix published_prefix (user_key userId)"
    by (rule keyed_other_key) (simp add: user_key_def)
  then show ?thesis
    using assms(1) updateProfile_writes[OF assms(2), of caller patch now]
    by (auto intro!: keyed_kv_set)
qed

subsection \<open>The handlers keep a store well formed\<close>

lemma createBlog_well_formed:
  "well_formed s \<Longrightarrow> colon_free blogId
   \<Longrightarrow> well_formed (snd (createBlog caller inp blogId now s))"
  by (simp add: well_formed_def createBlog_typed createBlog_side createBlog_keyed)

lemma updateBlog_well_formed:
  "well_formed s \<Longrightarrow> colon_free blogId
   \<Longrightarrow> well_formed (snd (updateBlog caller blogId inp now s))"
  by (simp add: well_formed_def updateBlog_typed updateBlog_side updateBlog_keyed)

lemma deleteBlog_well_formed:
  "well_formed s \<Longrightarrow> well_formed (snd (deleteBlog caller blogId s))"
  by (simp add: well_formed_def deleteBlog_typed deleteBlog_side deleteBlog_keyed)

lemma getBlogBySlug_well_formed:
  "well_formed s \<Longrightarrow> well_formed (snd (getBlogBySlug slug s))"
  by (simp add: well_formed_def getBlogBySlug_typed getBlogBySlug_side getBlogBySlug_keyed)

lemma addComment_well_formed:
  "well_formed s \<Longrightarrow> colon_free blogId \<Longrightarrow> colon_free commentId
   \<Longrightarrow> well_formed (snd (addComment caller blogId content commentId now s))"
  by (simp add: well_formed_def addComment_typed addComment_side addComment_keyed)

lemma updateProfile_well_formed:
  assumes "well_formed s" and "colon_free userId"
  shows "well_formed (snd (updateProfile caller userId patch now s))"
proof -
  have u: "kv_get s (user_key userId) = None \<or> (\<exists>u. kv_get s (user_key userId) = Some (User u))"
    using assms by (simp add: well_formed_def side_keys_user)
  show ?thesis
    using assms u
    by (simp add: well_formed_def updateProfile_typed updateProfile_side updateProfile_keyed)
qed


end
